theory Spec2Isabelle
  imports Main "HOL-Library.Word" "HOL-Library.Multiset"
begin

section \<open>Binary graph streams (include/binary_graph_stream.h)\<close>

subsection \<open>Bytes, errors and the operating system\<close>

type_synonym byte = "8 word"

text \<open>The exceptions of the repository: BadStreamException, StreamFailedException
  (binary_graph_stream.h) and UpdateLockedException (graph.h).\<close>

datatype error = BadStream | StreamFailed | UpdateLocked

text \<open>\<open>edge_size = sizeof(uint8_t) + 2 * sizeof(uint32_t)\<close> and
  \<open>header_size = sizeof(node_id_t) + sizeof(edge_id_t)\<close>; the header is read as 4 + 8
  bytes, so the two sizes are 9 and 12.\<close>

definition edge_size :: "32 word" where
  "edge_size = 9"

definition header_size :: "64 word" where
  "header_size = 12"

text \<open>\<open>memcpy\<close> of bytes into an unsigned integer on a little-endian host.\<close>

definition le_nat :: "byte list \<Rightarrow> nat" where
  "le_nat bs = foldr (\<lambda>b acc. unat b + 256 * acc) bs 0"

definition le_word :: "byte list \<Rightarrow> 'a::len word" where
  "le_word bs = of_nat (le_nat bs)"

text \<open>POSIX \<open>read\<close> on a regular file whose content is \<open>file\<close>, at position \<open>pos\<close>:
  \<open>-1\<close> on an invalid descriptor, otherwise the bytes that are there, at most \<open>n\<close>.\<close>

definition posix_read :: "int \<Rightarrow> byte list \<Rightarrow> nat \<Rightarrow> nat \<Rightarrow> int \<times> byte list" where
  "posix_read fd file pos n =
     (if fd < 0 then (- 1, [])
      else (int (length (take n (drop pos file))), take n (drop pos file)))"

text \<open>What the operating system does at one call of \<open>pread\<close>: it fails (\<open>-1\<close>), or it
  transfers at most so many bytes (a short read). The list gives the successive calls;
  once it is used up every call transfers all the bytes that are there.\<close>

datatype pread_outcome = PErr | PLimit nat

subsection \<open>BinaryGraphStream (single reader)\<close>

text \<open>\<open>std::ifstream\<close> on a file of the given content: the read position and the two
  state flags that the class tests. \<open>read\<close> on a stream that is not good sets
  \<open>failbit\<close> and transfers nothing; a read that finds fewer bytes than asked for
  transfers them and sets \<open>eofbit\<close> and \<open>failbit\<close>.\<close>

record ifstream =
  content :: "byte list"
  pos :: nat
  failbit :: bool
  eofbit :: bool

definition ifstream_read :: "ifstream \<Rightarrow> nat \<Rightarrow> ifstream \<times> byte list" where
  "ifstream_read f n =
     (if failbit f \<or> eofbit f then (f\<lparr>failbit := True\<rparr>, [])
      else
        (let bs = take n (drop (pos f) (content f))
         in if length bs < n
            then (f\<lparr>pos := pos f + length bs, failbit := True, eofbit := True\<rparr>, bs)
            else (f\<lparr>pos := pos f + n\<rparr>, bs)))"

record BinaryGraphStream =
  bin_file :: ifstream
  start_buf :: "byte list"
  buf :: nat
  buf_size :: "32 word"
  num_nodes :: "32 word"
  num_edges :: "64 word"

definition BinaryGraphStream_read_data :: "BinaryGraphStream \<Rightarrow> error + BinaryGraphStream" where
  "BinaryGraphStream_read_data st =
     (let (f, bs) = ifstream_read (bin_file st) (unat (buf_size st))
      in if failbit f \<and> \<not> eofbit f then Inl StreamFailed
         else Inr (st\<lparr>bin_file := f, buf := 0,
                       start_buf := bs @ drop (length bs) (start_buf st)\<rparr>))"

text \<open>The constructor. \<open>file\<close> is \<open>None\<close> when the file cannot be opened; \<open>mem\<close> is
  the block that \<open>malloc\<close> returned. The code leaves \<open>num_nodes\<close> and \<open>num_edges\<close>
  uninitialised where a header read falls short: the bytes that were not transferred keep
  what the memory held. Here those bytes are taken to be zero; nothing below depends on the
  value of the two fields after a short read. \<open>ifstream_read\<close> has no outcome for an error
  of the device (\<open>badbit\<close>), the case in which \<open>read_data\<close> of this class throws
  \<open>StreamFailedException\<close>.\<close>

definition BinaryGraphStream_ctor ::
    "byte list option \<Rightarrow> 32 word \<Rightarrow> byte list \<Rightarrow> error + BinaryGraphStream" where
  "BinaryGraphStream_ctor file b mem =
     (case file of
        None \<Rightarrow> Inl BadStream
      | Some c \<Rightarrow>
          (let f0 = \<lparr> content = c, pos = 0, failbit = False, eofbit = False \<rparr>;
               (f1, h1) = ifstream_read f0 4;
               (f2, h2) = ifstream_read f1 8
           in BinaryGraphStream_read_data
                \<lparr> bin_file = f2, start_buf = mem, buf = 0,
                  buf_size = b - (b mod edge_size),
                  num_nodes = le_word h1, num_edges = le_word h2 \<rparr>))"

subsection \<open>BinaryGraphStream_MT\<close>

record BinaryGraphStream_MT =
  stream_fd :: int
  num_nodes :: "32 word"
  num_edges :: "64 word"
  buf_size :: "32 word"
  end_of_file :: "64 word"
  stream_off :: "64 word"
  query_index :: "64 word"
  query_block :: bool

text \<open>The constructor. \<open>fd\<close> is what \<open>open\<close> returned (\<open>-1\<close> when the file cannot be
  opened), \<open>file\<close> the content of the file behind a valid descriptor.\<close>

definition BinaryGraphStream_MT_ctor ::
    "int \<Rightarrow> byte list \<Rightarrow> 32 word \<Rightarrow> error + BinaryGraphStream_MT" where
  "BinaryGraphStream_MT_ctor fd file b =
     (if fd = 0 then Inl BadStream
      else if fst (posix_read fd file 0 4) \<noteq> 4 then Inl BadStream
      else if fst (posix_read fd file 4 8) \<noteq> 8 then Inl BadStream
      else
        (let n = le_word (snd (posix_read fd file 0 4));
             m = le_word (snd (posix_read fd file 4 8))
         in Inr \<lparr> stream_fd = fd, num_nodes = n, num_edges = m,
                  buf_size = b - (b mod edge_size),
                  end_of_file = (m * ucast edge_size) + header_size,
                  stream_off = header_size,
                  query_index = - 1,
                  query_block = False \<rparr>))"

definition on_demand_query :: "BinaryGraphStream_MT \<Rightarrow> BinaryGraphStream_MT" where
  "on_demand_query s = s\<lparr>query_block := True\<rparr>"

definition post_query_resume :: "BinaryGraphStream_MT \<Rightarrow> BinaryGraphStream_MT" where
  "post_query_resume s = s\<lparr>query_block := False, query_index := - 1\<rparr>"

definition register_query :: "BinaryGraphStream_MT \<Rightarrow> 64 word \<Rightarrow> bool \<times> BinaryGraphStream_MT" where
  "register_query s query_idx =
     (let byte_index = header_size + query_idx * ucast edge_size
      in if byte_index \<le> stream_off s then (False, s)
         else (True, s\<lparr>query_index := byte_index\<rparr>))"

text \<open>\<open>register_query\<close> reads \<open>stream_off\<close> for its test and then stores
  \<open>query_index\<close>: two accesses, between which a reader thread may run. These are the two
  parts, for the runs in which one does.\<close>

definition register_query_admits :: "BinaryGraphStream_MT \<Rightarrow> 64 word \<Rightarrow> bool" where
  "register_query_admits s query_idx \<longleftrightarrow>
     \<not> header_size + query_idx * ucast edge_size \<le> stream_off s"

definition register_query_store :: "BinaryGraphStream_MT \<Rightarrow> 64 word \<Rightarrow> BinaryGraphStream_MT" where
  "register_query_store s query_idx =
     s\<lparr>query_index := header_size + query_idx * ucast edge_size\<rparr>"

definition stream_reset :: "BinaryGraphStream_MT \<Rightarrow> BinaryGraphStream_MT" where
  "stream_reset s = s\<lparr>stream_off := header_size\<rparr>"

text \<open>The \<open>while (data_read < data_to_read)\<close> loop of \<open>read_data\<close>. Every call of
  \<open>pread\<close> asks for \<open>data_to_read\<close> bytes at file offset \<open>read_off + data_read\<close> and
  stores them at the start of the caller's buffer \<open>cbuf\<close>. The result is \<open>None\<close> when the loop never
  ends: the outcomes are used up and no byte is left at the offset, so that every further
  call returns 0.\<close>

function pread_loop ::
    "byte list \<Rightarrow> pread_outcome list \<Rightarrow> nat \<Rightarrow> nat \<Rightarrow> byte list \<Rightarrow> nat
       \<Rightarrow> (error + (byte list \<times> nat)) option" where
  "pread_loop file os data_to_read read_off cbuf data_read =
     (if data_read < data_to_read then
        (case os of
           PErr # os' \<Rightarrow> Some (Inl StreamFailed)
         | PLimit n # os' \<Rightarrow>
             (let bs = take (min n data_to_read) (drop (read_off + data_read) file)
              in pread_loop file os' data_to_read read_off
                   (bs @ drop (length bs) cbuf) (data_read + length bs))
         | [] \<Rightarrow>
             (let bs = take data_to_read (drop (read_off + data_read) file)
              in if bs = [] then None
                 else pread_loop file [] data_to_read read_off
                        (bs @ drop (length bs) cbuf) (data_read + length bs)))
      else Some (Inr (cbuf, data_read)))"
  by pat_completeness auto
termination
  by (relation "measures [\<lambda>(file, os, dtr, roff, cbuf, dr). length os,
                          \<lambda>(file, os, dtr, roff, cbuf, dr). dtr - dr]")
     (auto simp: Let_def)

declare pread_loop.simps [simp del]

text \<open>The amount \<open>data_to_read\<close> that \<open>read_data\<close> computes for the block at
  \<open>read_off\<close>, with the store to \<open>stream_off\<close> that the query clamp makes.\<close>

definition query_clamps :: "BinaryGraphStream_MT \<Rightarrow> 64 word \<Rightarrow> bool" where
  "query_clamps s read_off \<longleftrightarrow>
     query_index s \<ge> read_off \<and> query_index s < read_off + ucast (buf_size s)"

definition data_to_read :: "BinaryGraphStream_MT \<Rightarrow> 64 word \<Rightarrow> 64 word" where
  "data_to_read s read_off =
     (let d = (if query_clamps s read_off then query_index s - read_off
               else ucast (buf_size s))
      in if read_off + d > end_of_file s then end_of_file s - read_off else d)"

text \<open>\<open>read_data\<close>, in two parts. \<open>read_data_fetched\<close> is the part after
  \<open>stream_off.fetch_add(buf_size)\<close>: it is given the stream as it is after the fetch and
  the \<open>read_off\<close> that the fetch returned. \<open>read_data\<close> is the whole function when
  no other thread runs between its first check and its fetch. The result is the outcome
  (an exception or the returned byte count), the stream and the caller's buffer
  afterwards; \<open>None\<close> when the read loop never ends.\<close>

definition read_data_fetched ::
    "byte list \<Rightarrow> pread_outcome list \<Rightarrow> BinaryGraphStream_MT \<Rightarrow> 64 word \<Rightarrow> byte list
       \<Rightarrow> ((error + 32 word) \<times> BinaryGraphStream_MT \<times> byte list) option" where
  "read_data_fetched file os s1 read_off cbuf =
     (if read_off \<ge> query_index s1 then Some (Inr 0, s1\<lparr>stream_off := query_index s1\<rparr>, cbuf)
      else if read_off \<ge> end_of_file s1 then Some (Inr 0, s1, cbuf)
      else
        (let s2 = (if query_clamps s1 read_off then s1\<lparr>stream_off := query_index s1\<rparr>
                   else s1)
         in case pread_loop file os (unat (data_to_read s1 read_off)) (unat read_off) cbuf 0 of
              None \<Rightarrow> None
            | Some (Inl e) \<Rightarrow> Some (Inl e, s2, cbuf)
            | Some (Inr (cbuf', data_read)) \<Rightarrow> Some (Inr (of_nat data_read), s2, cbuf')))"

definition read_data ::
    "byte list \<Rightarrow> pread_outcome list \<Rightarrow> BinaryGraphStream_MT \<Rightarrow> byte list
       \<Rightarrow> ((error + 32 word) \<times> BinaryGraphStream_MT \<times> byte list) option" where
  "read_data file os s cbuf =
     (if query_block s \<or> stream_off s \<ge> end_of_file s \<or> stream_off s \<ge> query_index s
      then Some (Inr 0, s, cbuf)
      else read_data_fetched file os (s\<lparr>stream_off := stream_off s + ucast (buf_size s)\<rparr>)
             (stream_off s) cbuf)"

subsection \<open>MT_StreamReader\<close>

text \<open>Modelled from the spec: \<open>types.h\<close> (\<open>UpdateType\<close>, \<open>GraphUpdate\<close>, \<open>Edge\<close>,
  \<open>node_id_t\<close>) is not among the sources. The kind of an update is one byte on the wire,
  0 for an insertion and 1 for a deletion; \<open>BREAKPOINT\<close> is a kind distinct from both;
  a vertex identifier is an unsigned 32-bit integer.\<close>

type_synonym node_id_t = "32 word"
type_synonym UpdateType = byte

definition INSERT :: UpdateType where "INSERT = 0"
definition DELETE :: UpdateType where "DELETE = 1"
definition BREAKPOINT :: UpdateType where "BREAKPOINT = 2"

record GraphUpdate =
  edge :: "node_id_t \<times> node_id_t"
  type :: UpdateType

text \<open>The reader: \<open>start_buf\<close> is the content of its buffer, \<open>buf\<close> the distance
  \<open>buf - start_buf\<close>.\<close>

record MT_StreamReader =
  start_buf :: "byte list"
  buf :: nat
  data_in_buf :: "32 word"

text \<open>The constructor; \<open>mem\<close> is the block of \<open>buf_size\<close> bytes that \<open>malloc\<close>
  returned.\<close>

definition MT_StreamReader_ctor :: "byte list \<Rightarrow> MT_StreamReader" where
  "MT_StreamReader_ctor mem = \<lparr> start_buf = mem, buf = 0, data_in_buf = 0 \<rparr>"

text \<open>The nine bytes at \<open>p\<close> as an update: the kind, then the two endpoints.\<close>

definition parse_update :: "byte list \<Rightarrow> nat \<Rightarrow> GraphUpdate" where
  "parse_update b p =
     \<lparr> edge = (le_word (take 4 (drop (p + 1) b)), le_word (take 4 (drop (p + 5) b))),
       type = le_word (take 1 (drop p b)) \<rparr>"

definition breakpoint_update :: GraphUpdate where
  "breakpoint_update = \<lparr> edge = (0, 0), type = BREAKPOINT \<rparr>"

definition get_edge ::
    "byte list \<Rightarrow> pread_outcome list \<Rightarrow> BinaryGraphStream_MT \<Rightarrow> MT_StreamReader
       \<Rightarrow> ((error + GraphUpdate) \<times> BinaryGraphStream_MT \<times> MT_StreamReader) option" where
  "get_edge file os s r =
     (if int (buf r) \<ge> uint (data_in_buf r) then
        (case read_data file os s (start_buf r) of
           None \<Rightarrow> None
         | Some (Inl e, s', b') \<Rightarrow> Some (Inl e, s', r\<lparr>start_buf := b'\<rparr>)
         | Some (Inr n, s', b') \<Rightarrow>
             if n = 0
             then Some (Inr breakpoint_update, s', r\<lparr>start_buf := b', data_in_buf := 0\<rparr>)
             else Some (Inr (parse_update b' 0), s',
                        r\<lparr>start_buf := b', data_in_buf := n, buf := unat edge_size\<rparr>))
      else Some (Inr (parse_update (start_buf r) (buf r)), s,
                 r\<lparr>buf := buf r + unat edge_size\<rparr>))"

text \<open>A file of three vertices and three insertions (0,1), (1,2) and (0,2).\<close>

definition example_file :: "byte list" where
  "example_file =
     [3, 0, 0, 0,   3, 0, 0, 0, 0, 0, 0, 0,
      0,  0, 0, 0, 0,  1, 0, 0, 0,
      0,  1, 0, 0, 0,  2, 0, 0, 0,
      0,  0, 0, 0, 0,  2, 0, 0, 0]"

text \<open>The stream that the constructor builds on \<open>example_file\<close>, with the buffer
  size \<open>b\<close> already rounded down to a multiple of nine.\<close>

definition example_stream :: "32 word \<Rightarrow> BinaryGraphStream_MT" where
  "example_stream b =
     \<lparr> stream_fd = 3, num_nodes = 3, num_edges = 3, buf_size = b, end_of_file = 39,
       stream_off = 12, query_index = - 1, query_block = False \<rparr>"

text \<open>A reader of that stream (buffer of 18 bytes) that holds the first block of
  \<open>example_file\<close> and has consumed \<open>p\<close> bytes of it.\<close>

definition example_reader :: "nat \<Rightarrow> MT_StreamReader" where
  "example_reader p =
     \<lparr> start_buf = take 18 (drop 12 example_file), buf = p, data_in_buf = 18 \<rparr>"

text \<open>The stream of \<open>example_file\<close> (buffer of 18 bytes) stopped at a query registered
  at index 1, and the reader that has fetched the block before the query and consumed it.\<close>

definition example_paused_stream :: BinaryGraphStream_MT where
  "example_paused_stream = (example_stream 18)\<lparr>stream_off := 21, query_index := 21\<rparr>"

definition example_paused_reader :: MT_StreamReader where
  "example_paused_reader =
     \<lparr> start_buf = take 9 (drop 12 example_file), buf = 9, data_in_buf = 9 \<rparr>"

text \<open>What the calls of \<open>get_edge\<close> have returned when two readers have run up to that
  query, and the two readers as they are then.\<close>

definition example_log :: "(nat \<times> GraphUpdate) list" where
  "example_log =
     [(0, \<lparr>edge = (0, 1), type = INSERT\<rparr>), (1, breakpoint_update), (0, breakpoint_update)]"

definition example_resumed_readers :: "MT_StreamReader list" where
  "example_resumed_readers =
     [example_paused_reader\<lparr>data_in_buf := 0\<rparr>, MT_StreamReader_ctor []]"

text \<open>The amount \<open>data_to_read\<close> in the words of the specification, on unbounded
  numbers: \<open>buf_size\<close>, clamped to \<open>query_index - read_off\<close> when \<open>query_index\<close>
  lies in \<open>[read_off, read_off + buf_size)\<close>, then to \<open>end_of_file - read_off\<close>.\<close>

definition spec_data_to_read :: "nat \<Rightarrow> nat \<Rightarrow> nat \<Rightarrow> nat \<Rightarrow> nat" where
  "spec_data_to_read bsz qi eof ro =
     (let d = (if ro \<le> qi \<and> qi < ro + bsz then qi - ro else bsz)
      in if ro + d > eof then eof - ro else d)"

text \<open>The three conditions under which \<open>read_data\<close> returns before its fetch, and a
  reader that has consumed its buffer.\<close>

definition breakpoint_condition :: "BinaryGraphStream_MT \<Rightarrow> bool" where
  "breakpoint_condition s \<longleftrightarrow>
     query_block s \<or> stream_off s \<ge> end_of_file s \<or> stream_off s \<ge> query_index s"

definition exhausted :: "MT_StreamReader \<Rightarrow> bool" where
  "exhausted r \<longleftrightarrow> int (buf r) \<ge> uint (data_in_buf r)"

subsection \<open>Several readers on one stream\<close>

text \<open>\<open>get_edge\<close> of a reader whose buffer is consumed, from the fetch on: the part of
  \<open>read_data\<close> after \<open>fetch_add\<close> and what \<open>get_edge\<close> does with its result.\<close>

definition get_edge_fetched ::
    "byte list \<Rightarrow> pread_outcome list \<Rightarrow> BinaryGraphStream_MT \<Rightarrow> 64 word \<Rightarrow> MT_StreamReader
       \<Rightarrow> ((error + GraphUpdate) \<times> BinaryGraphStream_MT \<times> MT_StreamReader) option" where
  "get_edge_fetched file os s1 read_off r =
     (case read_data_fetched file os s1 read_off (start_buf r) of
        None \<Rightarrow> None
      | Some (Inl e, s', b') \<Rightarrow> Some (Inl e, s', r\<lparr>start_buf := b'\<rparr>)
      | Some (Inr n, s', b') \<Rightarrow>
          if n = 0
          then Some (Inr breakpoint_update, s', r\<lparr>start_buf := b', data_in_buf := 0\<rparr>)
          else Some (Inr (parse_update b' 0), s',
                     r\<lparr>start_buf := b', data_in_buf := n, buf := unat edge_size\<rparr>))"

text \<open>The reader threads of one stream, interleaved as a schedule says: each entry of the
  schedule lets one reader take one step of its current call of \<open>get_edge\<close>. A call that
  has to fetch takes two steps: the first check of \<open>read_data\<close>, which only reads the
  shared fields, and then \<open>fetch_add\<close> with the rest of the call; between the two, other
  readers may run, so that the \<open>read_off\<close> a reader obtains need not be the offset it
  checked. Any other call takes one step. \<open>fetching\<close> holds the readers that have
  passed the check and not yet fetched; \<open>delivered\<close> records what every call returned,
  with the number of the reader. The operating system transfers every block in
  full.\<close>

record mt_state =
  delivered :: "(nat \<times> GraphUpdate) list"
  strm :: BinaryGraphStream_MT
  rdrs :: "MT_StreamReader list"
  fetching :: "nat set"

definition returned ::
    "nat \<Rightarrow> mt_state \<Rightarrow> ((error + GraphUpdate) \<times> BinaryGraphStream_MT \<times> MT_StreamReader) option
       \<Rightarrow> (error + mt_state) option" where
  "returned i st res =
     (case res of
        None \<Rightarrow> None
      | Some (Inl e, s', r') \<Rightarrow> Some (Inl e)
      | Some (Inr u, s', r') \<Rightarrow>
          Some (Inr \<lparr> delivered = delivered st @ [(i, u)], strm = s',
                      rdrs = (rdrs st)[i := r'], fetching = fetching st - {i} \<rparr>))"

definition reader_step :: "byte list \<Rightarrow> nat \<Rightarrow> mt_state \<Rightarrow> (error + mt_state) option" where
  "reader_step file i st =
     (if i < length (rdrs st) then
        (if i \<in> fetching st then
           returned i st
             (get_edge_fetched file []
                ((strm st)\<lparr>stream_off := stream_off (strm st) + ucast (buf_size (strm st))\<rparr>)
                (stream_off (strm st)) (rdrs st ! i))
         else if exhausted (rdrs st ! i) \<and> \<not> breakpoint_condition (strm st) then
           Some (Inr (st\<lparr>fetching := insert i (fetching st)\<rparr>))
         else returned i st (get_edge file [] (strm st) (rdrs st ! i)))
      else Some (Inr st))"

fun run :: "byte list \<Rightarrow> nat list \<Rightarrow> mt_state \<Rightarrow> (error + mt_state) option" where
  "run file [] st = Some (Inr st)"
| "run file (i # sched) st =
     (case reader_step file i st of
        None \<Rightarrow> None
      | Some (Inl e) \<Rightarrow> Some (Inl e)
      | Some (Inr st') \<Rightarrow> run file sched st')"

text \<open>The state in which the readers start.\<close>

definition mt_start :: "BinaryGraphStream_MT \<Rightarrow> MT_StreamReader list \<Rightarrow> mt_state" where
  "mt_start s rs = \<lparr> delivered = [], strm = s, rdrs = rs, fetching = {} \<rparr>"

text \<open>The results that are updates, not the sentinel of a breakpoint.\<close>

definition updates_of :: "(nat \<times> GraphUpdate) list \<Rightarrow> (nat \<times> GraphUpdate) list" where
  "updates_of log = filter (\<lambda>p. snd p \<noteq> breakpoint_update) log"

text \<open>Record \<open>n\<close> of the file, and the update sequence of a file.\<close>

definition file_update :: "byte list \<Rightarrow> nat \<Rightarrow> GraphUpdate" where
  "file_update file n = parse_update file (12 + 9 * n)"

definition file_updates :: "byte list \<Rightarrow> GraphUpdate list" where
  "file_updates file = map (file_update file) [0..<(length file - 12) div 9]"

definition fresh_readers :: "MT_StreamReader list \<Rightarrow> bool" where
  "fresh_readers rs \<longleftrightarrow> list_all (\<lambda>r. buf r = 0 \<and> data_in_buf r = 0) rs"

text \<open>What holds of the readers and the stream in every state of a run. A reader has
  an interval \<open>(lo, hi)\<close> of record numbers: the records of its block that it still
  holds. \<open>stream_limit\<close> is the offset at which fetching stops, \<open>stream_ok\<close> what the
  run assumes of the stream and the file, for \<open>k\<close> readers.\<close>

definition reader_ok :: "byte list \<Rightarrow> MT_StreamReader \<Rightarrow> nat \<times> nat \<Rightarrow> bool" where
  "reader_ok file r p \<longleftrightarrow>
     fst p \<le> snd p \<and> (fst p = snd p \<longrightarrow> exhausted r)
     \<and> (fst p < snd p \<longrightarrow>
          (\<exists>base\<le>fst p. buf r = 9 * (fst p - base)
              \<and> unat (data_in_buf r) = 9 * (snd p - base)
              \<and> take (9 * (snd p - base)) (start_buf r)
                  = take (9 * (snd p - base)) (drop (12 + 9 * base) file)))"

definition stream_limit :: "BinaryGraphStream_MT \<Rightarrow> nat" where
  "stream_limit s = min (unat (query_index s)) (unat (end_of_file s))"

definition stream_ok :: "byte list \<Rightarrow> nat \<Rightarrow> BinaryGraphStream_MT \<Rightarrow> bool" where
  "stream_ok file k s0 \<longleftrightarrow>
     buf_size s0 \<noteq> 0 \<and> 9 dvd unat (buf_size s0)
     \<and> 12 \<le> stream_limit s0 \<and> 9 dvd (stream_limit s0 - 12)
     \<and> unat (end_of_file s0) + k * unat (buf_size s0) < 2 ^ 64
     \<and> unat (end_of_file s0) \<le> length file
     \<and> (unat (end_of_file s0) + k * unat (buf_size s0) \<le> unat (query_index s0)
          \<or> 12 \<le> unat (query_index s0) \<and> 9 dvd (unat (query_index s0) - 12))
     \<and> (\<forall>n < (stream_limit s0 - 12) div 9. file_update file n \<noteq> breakpoint_update)"

definition mt_inv ::
    "byte list \<Rightarrow> BinaryGraphStream_MT \<Rightarrow> mt_state \<Rightarrow> (nat \<times> nat) list \<Rightarrow> (nat \<times> nat) list \<Rightarrow> bool" where
  "mt_inv file s0 st D ps \<longleftrightarrow>
     buf_size (strm st) = buf_size s0 \<and> end_of_file (strm st) = end_of_file s0
     \<and> query_index (strm st) = query_index s0 \<and> \<not> query_block (strm st)
     \<and> 12 \<le> unat (stream_off (strm st)) \<and> 9 dvd (unat (stream_off (strm st)) - 12)
     \<and> fetching st \<subseteq> {0..<length ps}
     \<and> unat (stream_off (strm st)) + unat (buf_size s0) * card (fetching st)
          \<le> stream_limit s0 + unat (buf_size s0) * length ps
     \<and> (unat (query_index s0) \<le> unat (end_of_file s0)
          \<longrightarrow> unat (stream_off (strm st))
                \<le> unat (query_index s0) + unat (buf_size s0) * card (fetching st))
     \<and> length ps = length (rdrs st)
     \<and> (\<forall>i<length ps. reader_ok file (rdrs st ! i) (ps ! i)
            \<and> snd (ps ! i) \<le> (min (unat (stream_off (strm st))) (stream_limit s0) - 12) div 9
            \<and> (i \<in> fetching st \<longrightarrow> fst (ps ! i) = snd (ps ! i))
            \<and> ((i, breakpoint_update) \<in> set (delivered st) \<longrightarrow>
                  fst (ps ! i) = snd (ps ! i) \<and> i \<notin> fetching st
                  \<and> stream_limit s0 \<le> unat (stream_off (strm st))))
     \<and> updates_of (delivered st) = map (\<lambda>p. (fst p, file_update file (snd p))) D
     \<and> (\<forall>p\<in>set D. fst p < length ps \<and> snd p < fst (ps ! fst p))
     \<and> (\<forall>i. sorted_wrt (<) (map snd (filter (\<lambda>p. fst p = i) D)))
     \<and> mset (map snd D) + (\<Sum>p\<leftarrow>ps. mset [fst p..<snd p])
         = mset [0..<(min (unat (stream_off (strm st))) (stream_limit s0) - 12) div 9]"

section \<open>The graph engine (include/graph.h)\<close>

text \<open>Modelled from the spec: \<open>guttering_system.h\<close> is not among the sources.
  \<open>insert((src, dst), thread_id)\<close> buffers the pair; the gutter is the list of the
  pairs inserted so far, each with the thread that inserted it.\<close>

type_synonym GutteringSystem = "((node_id_t \<times> node_id_t) \<times> int) list"

definition gts_insert :: "GutteringSystem \<Rightarrow> node_id_t \<times> node_id_t \<Rightarrow> int \<Rightarrow> GutteringSystem" where
  "gts_insert g e thr_id = g @ [(e, thr_id)]"

text \<open>The members of \<open>Graph\<close> that \<open>update\<close> reads or writes; \<open>dsu_size\<close> is the
  array \<open>size\<close>.\<close>

record Graph =
  update_locked :: bool
  parent :: "node_id_t \<Rightarrow> node_id_t"
  dsu_size :: "node_id_t \<Rightarrow> node_id_t"
  dsu_valid :: bool
  spanning_forest :: "node_id_t \<Rightarrow> node_id_t set"
  gts :: GutteringSystem

text \<open>Modelled from the spec: \<open>Graph::get_parent\<close> is defined in \<open>graph.cpp\<close>, which
  is not among the sources. Find with path halving: while \<open>parent[x] \<noteq> x\<close>, set
  \<open>parent[x]\<close> to \<open>parent[parent[x]]\<close>, then \<open>x\<close> to \<open>parent[x]\<close>. The result is the
  root and the array afterwards; \<open>None\<close> when the walk never ends.\<close>

partial_function (option) get_parent ::
    "(node_id_t \<Rightarrow> node_id_t) \<Rightarrow> node_id_t \<Rightarrow> (node_id_t \<times> (node_id_t \<Rightarrow> node_id_t)) option" where
  "get_parent p x =
     (if p x \<noteq> x then get_parent (p(x := p (p x))) (p (p x)) else Some (x, p))"

text \<open>The loop \<open>while ((a = get_parent(a)) != (b = get_parent(b)))\<close> of \<open>update\<close>, the
  left operand evaluated first. \<open>cas\<close> says of each coming
  \<open>atomic_compare_exchange_weak\<close> whether it fails spuriously (none does once the list
  is used up); a failed exchange leaves the value of \<open>parent[b]\<close> in \<open>b\<close>.\<close>

partial_function (option) union_loop ::
    "bool list \<Rightarrow> node_id_t \<Rightarrow> node_id_t \<Rightarrow> Graph \<Rightarrow> node_id_t \<Rightarrow> node_id_t \<Rightarrow> Graph option" where
  "union_loop cas src dst g a b =
     (case get_parent (parent g) a of
        None \<Rightarrow> None
      | Some (a1, p1) \<Rightarrow>
          (case get_parent p1 b of
             None \<Rightarrow> None
           | Some (b1, p2) \<Rightarrow>
               if a1 = b1 then Some (g\<lparr>parent := p2\<rparr>)
               else
                 (let a2 = (if dsu_size g a1 < dsu_size g b1 then b1 else a1);
                      b2 = (if dsu_size g a1 < dsu_size g b1 then a1 else b1)
                  in if p2 b2 = b2 \<and> \<not> (cas \<noteq> [] \<and> hd cas)
                     then Some (g\<lparr>parent := p2(b2 := a2),
                                  dsu_size := (dsu_size g)(a2 := dsu_size g a2 + dsu_size g b2),
                                  spanning_forest :=
                                    (spanning_forest g)(src := insert dst (spanning_forest g src))\<rparr>)
                     else union_loop (tl cas) src dst (g\<lparr>parent := p2\<rparr>) a2 (p2 b2))))"

declare get_parent.simps [code] union_loop.simps [code]

text \<open>The part of \<open>update\<close> under \<open>#ifdef USE_EAGER_DSU\<close> (\<open>eager\<close>) and the part
  under \<open>#else\<close>; \<open>e\<close> is the edge after the swap of its endpoints.\<close>

definition dsu_step ::
    "bool \<Rightarrow> bool list \<Rightarrow> Graph \<Rightarrow> node_id_t \<times> node_id_t \<Rightarrow> Graph option" where
  "dsu_step eager cas g e =
     (if eager then
        (if dsu_valid g then
           (let src = min (fst e) (snd e); dst = max (fst e) (snd e)
            in if dst \<in> spanning_forest g src then Some (g\<lparr>dsu_valid := False\<rparr>)
               else union_loop cas src dst g src dst)
         else Some g)
      else Some (if dsu_valid g then g\<lparr>dsu_valid := False\<rparr> else g))"

text \<open>\<open>Graph::update\<close>: the exception raised, if any, and the graph afterwards;
  \<open>None\<close> when the call never returns.\<close>

definition update ::
    "bool \<Rightarrow> bool list \<Rightarrow> Graph \<Rightarrow> GraphUpdate \<Rightarrow> int \<Rightarrow> (error option \<times> Graph) option" where
  "update eager cas g upd thr_id =
     (if update_locked g then Some (Some UpdateLocked, g)
      else
        (let e = edge upd;
             g1 = g\<lparr>gts := gts_insert (gts g) (fst e, snd e) thr_id\<rparr>;
             e' = (snd e, fst e);
             g2 = g1\<lparr>gts := gts_insert (gts g1) (fst e', snd e') thr_id\<rparr>
         in map_option (Pair None) (dsu_step eager cas g2 e')))"

text \<open>A sequence of updates by one thread, stopping at the first exception.\<close>

fun updates :: "bool \<Rightarrow> Graph \<Rightarrow> GraphUpdate list \<Rightarrow> (error option \<times> Graph) option" where
  "updates eager g [] = Some (None, g)"
| "updates eager g (u # us) =
     (case update eager [] g u 0 of
        None \<Rightarrow> None
      | Some (Some e, g') \<Rightarrow> Some (Some e, g')
      | Some (None, g') \<Rightarrow> updates eager g' us)"

text \<open>The parent array has no cycle but the self-loops at the roots: every step to a
  parent lowers the rank \<open>f\<close>. On such an array every walk to a root ends.\<close>

definition ranked :: "(node_id_t \<Rightarrow> nat) \<Rightarrow> (node_id_t \<Rightarrow> node_id_t) \<Rightarrow> bool" where
  "ranked f p \<longleftrightarrow> (\<forall>y. p y \<noteq> y \<longrightarrow> f (p y) < f y)"

text \<open>The graph after the loop has found the roots \<open>a\<close> and \<open>b\<close> and, when they
  differ, has linked the one of smaller size below the other; \<open>p2\<close> is the parent array
  after the two finds.\<close>

definition union_result ::
    "Graph \<Rightarrow> (node_id_t \<Rightarrow> node_id_t) \<Rightarrow> node_id_t \<Rightarrow> node_id_t \<Rightarrow> node_id_t \<Rightarrow> node_id_t
       \<Rightarrow> Graph" where
  "union_result g p2 src dst a b =
     (if a = b then g\<lparr>parent := p2\<rparr>
      else
        (let big = (if dsu_size g a < dsu_size g b then b else a);
             small = (if dsu_size g a < dsu_size g b then a else b)
         in g\<lparr>parent := p2(small := big),
              dsu_size := (dsu_size g)(big := dsu_size g big + dsu_size g small),
              spanning_forest := (spanning_forest g)(src := insert dst (spanning_forest g src))\<rparr>))"

text \<open>Modelled from the spec: the constructor of \<open>Graph\<close> is in \<open>graph.cpp\<close>, which
  is not among the sources. A graph before any update: the DSU entries are created with
  every vertex its own parent, of size one, no edge is in the spanning forest, and
  \<open>dsu_valid = true\<close> and \<open>update_locked = false\<close> as the class declaration
  initialises them.\<close>

definition new_graph :: Graph where
  "new_graph = \<lparr> update_locked = False, parent = (\<lambda>x. x), dsu_size = (\<lambda>x. 1),
                 dsu_valid = True, spanning_forest = (\<lambda>x. {}), gts = [] \<rparr>"

text \<open>The new graph after the insertion of the edge (0,1) by thread 0, and a rank of its
  parent array.\<close>

definition example_graph :: Graph where
  "example_graph =
     \<lparr> update_locked = False, parent = (\<lambda>x. x)(1 := 0), dsu_size = (\<lambda>x. 1)(0 := 2),
       dsu_valid = True, spanning_forest = (\<lambda>x. {})(0 := {1}),
       gts = [((0, 1), 0), ((1, 0), 0)] \<rparr>"

definition example_rank :: "node_id_t \<Rightarrow> nat" where
  "example_rank x = (if x = 0 then 0 else 1)"

section \<open>Properties of the streams\<close>

subsection \<open>The block fetch\<close>

lemma pread_loop_full:
  assumes "0 < n" "off + n \<le> length file"
  shows "pread_loop file [] n off b 0 = Some (Inr (take n (drop off file) @ drop n b, n))"
proof -
  have len: "length (take n (drop off file)) = n" using assms by simp
  have ne: "take n (drop off file) \<noteq> []" using len assms(1) by auto
  have step: "pread_loop file [] n off b 0 =
      pread_loop file [] n off (take n (drop off file) @ drop n b) n"
    by (subst pread_loop.simps)
       (simp only: assms(1) Let_def Nat.add_0_right ne len if_True if_False list.case add_0)
  show ?thesis
    unfolding step by (subst pread_loop.simps) simp
qed

lemma ucast_buf_unat: "unat (ucast (x :: 32 word) :: 64 word) = unat x"
  by (simp add: unsigned_ucast_eq take_bit_nat_eq_self unsigned_less[where 'b=32, THEN less_trans])

lemma data_to_read_nat:
  assumes nowrap: "unat ro + unat (buf_size s) < 2 ^ 64"
      and lt_q: "ro < query_index s" and lt_e: "ro < end_of_file s"
  shows "unat (data_to_read s ro) =
           min (unat (buf_size s)) (min (unat (query_index s) - unat ro) (unat (end_of_file s) - unat ro))"
proof -
  have b: "unat (ro + ucast (buf_size s)) = unat ro + unat (buf_size s)"
    using nowrap by (simp add: unat_add_lem [THEN iffD1] ucast_buf_unat)
  have q: "unat ro < unat (query_index s)" using lt_q by (simp add: word_less_nat_alt)
  have e: "unat ro < unat (end_of_file s)" using lt_e by (simp add: word_less_nat_alt)
  have qs: "unat (query_index s - ro) = unat (query_index s) - unat ro"
    using lt_q by (simp add: unat_sub)
  have es: "unat (end_of_file s - ro) = unat (end_of_file s) - unat ro"
    using lt_e by (simp add: unat_sub)
  have qa: "unat (ro + (query_index s - ro)) = unat (query_index s)" by simp
  show ?thesis
    using q e nowrap
    by (simp add: data_to_read_def query_clamps_def Let_def word_le_nat_alt word_less_nat_alt
          b qs es ucast_buf_unat del: add_diff_cancel_left')
       (auto simp: min_def)
qed

lemma spec_data_to_read_min:
  "ro < qi \<Longrightarrow> ro < eof \<Longrightarrow> spec_data_to_read bsz qi eof ro = min bsz (min (qi - ro) (eof - ro))"
  by (auto simp: spec_data_to_read_def Let_def min_def)

lemma query_clamps_nat:
  assumes "unat ro + unat (buf_size s) < 2 ^ 64"
  shows "query_clamps s ro \<longleftrightarrow>
           unat ro \<le> unat (query_index s) \<and> unat (query_index s) < unat ro + unat (buf_size s)"
proof -
  have b: "unat (ro + ucast (buf_size s)) = unat ro + unat (buf_size s)"
    using assms by (simp add: unat_add_lem [THEN iffD1] ucast_buf_unat)
  show ?thesis
    by (simp add: query_clamps_def word_le_nat_alt word_less_nat_alt b)
qed

lemma unat_buf_size_lt: "unat (x :: 32 word) < 2 ^ 32"
  using unsigned_less [of x] by simp

lemma of_nat_block:
  assumes "n \<le> unat (x :: 32 word)"
  shows "unat (of_nat n :: 32 word) = n"
proof -
  have "n < 2 ^ 32" using assms unat_buf_size_lt [of x] by simp
  then show ?thesis
    by (simp add: unat_of_nat take_bit_nat_eq_self)
qed

lemma of_nat_block_ne0:
  assumes "0 < n" "n \<le> unat (x :: 32 word)"
  shows "(of_nat n :: 32 word) \<noteq> 0"
  using of_nat_block [OF assms(2)] assms(1) by (metis unat_0 less_numeral_extra(3))

lemma read_data_fetched_block:
  assumes bs: "buf_size s \<noteq> 0"
      and nowrap: "unat ro + unat (buf_size s) < 2 ^ 64"
      and long: "unat (end_of_file s) \<le> length file"
      and lt_q: "ro < query_index s" and lt_e: "ro < end_of_file s"
  shows "read_data_fetched file [] s ro b =
           Some (Inr (of_nat (spec_data_to_read (unat (buf_size s)) (unat (query_index s))
                                (unat (end_of_file s)) (unat ro))),
                 (if query_clamps s ro then s\<lparr>stream_off := query_index s\<rparr> else s),
                 take (spec_data_to_read (unat (buf_size s)) (unat (query_index s))
                                (unat (end_of_file s)) (unat ro)) (drop (unat ro) file)
                 @ drop (spec_data_to_read (unat (buf_size s)) (unat (query_index s))
                                (unat (end_of_file s)) (unat ro)) b)"
proof -
  let ?n = "spec_data_to_read (unat (buf_size s)) (unat (query_index s)) (unat (end_of_file s)) (unat ro)"
  have q: "unat ro < unat (query_index s)" using lt_q by (simp add: word_less_nat_alt)
  have e: "unat ro < unat (end_of_file s)" using lt_e by (simp add: word_less_nat_alt)
  have n: "unat (data_to_read s ro) = ?n"
    using data_to_read_nat [OF nowrap lt_q lt_e] spec_data_to_read_min [OF q e] by simp
  have b0: "0 < unat (buf_size s)" using bs by (simp add: unat_gt_0)
  have npos: "0 < ?n" using q e b0 by (simp add: spec_data_to_read_min)
  have nle: "unat ro + ?n \<le> length file" using q e long by (simp add: spec_data_to_read_min)
  show ?thesis
    using lt_q lt_e
    by (simp add: read_data_fetched_def n pread_loop_full [OF npos nle] Let_def not_le [symmetric])
qed

lemma spec_data_to_read_bounds:
  assumes "ro < qi" "ro < eof" "0 < bsz"
  shows "0 < spec_data_to_read bsz qi eof ro" "spec_data_to_read bsz qi eof ro \<le> bsz"
  using assms by (simp_all add: spec_data_to_read_min)

text \<open>C3, as amended. For a buffer of at least one record (\<open>buf_size \<noteq> 0\<close>), a file that
  holds the \<open>end_of_file\<close> bytes its header announces, offsets that do not wrap around
  64 bits and an operating system that transfers every block in full:
  \<open>read_data\<close> returns 0 bytes, changing nothing, exactly when \<open>query_block\<close> is set or
  \<open>stream_off \<ge> end_of_file\<close> or \<open>stream_off \<ge> query_index\<close>; the part after the
  fetch, for whatever \<open>read_off\<close> the fetch returned, returns 0 exactly when
  \<open>read_off \<ge> query_index\<close> (storing \<open>query_index\<close> to \<open>stream_off\<close>) or
  \<open>read_off \<ge> end_of_file\<close>; otherwise the call returns the amount of the
  specification, \<open>buf_size\<close> clamped to \<open>query_index - read_off\<close> (then publishing
  \<open>stream_off = query_index\<close>) and to \<open>end_of_file - read_off\<close>, and the buffer starts
  with that many bytes of the file from \<open>read_off\<close>.\<close>

theorem read_data_breakpoint_or_block:
  assumes bs: "buf_size s \<noteq> 0"
      and nowrap: "unat (stream_off s) + unat (buf_size s) < 2 ^ 64"
      and nowrap': "unat ro + unat (buf_size s) < 2 ^ 64"
      and long: "unat (end_of_file s) \<le> length file"
  shows "read_data file [] s b =
           (if query_block s \<or> stream_off s \<ge> end_of_file s \<or> stream_off s \<ge> query_index s
            then Some (Inr 0, s, b)
            else
              (let n = spec_data_to_read (unat (buf_size s)) (unat (query_index s))
                         (unat (end_of_file s)) (unat (stream_off s))
               in Some (Inr (of_nat n),
                        s\<lparr>stream_off :=
                            (if unat (query_index s) < unat (stream_off s) + unat (buf_size s)
                             then query_index s else stream_off s + ucast (buf_size s))\<rparr>,
                        take n (drop (unat (stream_off s)) file) @ drop n b)))
         \<and> read_data_fetched file [] s ro b =
           (if ro \<ge> query_index s then Some (Inr 0, s\<lparr>stream_off := query_index s\<rparr>, b)
            else if ro \<ge> end_of_file s then Some (Inr 0, s, b)
            else
              (let n = spec_data_to_read (unat (buf_size s)) (unat (query_index s))
                         (unat (end_of_file s)) (unat ro)
               in Some (Inr (of_nat n),
                        (if unat (query_index s) < unat ro + unat (buf_size s)
                         then s\<lparr>stream_off := query_index s\<rparr> else s),
                        take n (drop (unat ro) file) @ drop n b)))
         \<and> ((\<exists>s' b'. read_data file [] s b = Some (Inr 0, s', b')) \<longleftrightarrow>
              (query_block s \<or> stream_off s \<ge> end_of_file s \<or> stream_off s \<ge> query_index s))
         \<and> ((\<exists>s' b'. read_data_fetched file [] s ro b = Some (Inr 0, s', b')) \<longleftrightarrow>
              (ro \<ge> query_index s \<or> ro \<ge> end_of_file s))"
proof -
  let ?s1 = "s\<lparr>stream_off := stream_off s + ucast (buf_size s)\<rparr>"
  have B: "read_data_fetched file [] t r b =
           (if r \<ge> query_index t then Some (Inr 0, t\<lparr>stream_off := query_index t\<rparr>, b)
            else if r \<ge> end_of_file t then Some (Inr 0, t, b)
            else
              (let n = spec_data_to_read (unat (buf_size t)) (unat (query_index t))
                         (unat (end_of_file t)) (unat r)
               in Some (Inr (of_nat n),
                        (if unat (query_index t) < unat r + unat (buf_size t)
                         then t\<lparr>stream_off := query_index t\<rparr> else t),
                        take n (drop (unat r) file) @ drop n b)))"
    if "buf_size t \<noteq> 0" "unat r + unat (buf_size t) < 2 ^ 64" "unat (end_of_file t) \<le> length file"
    for t r
  proof (cases "r \<ge> query_index t \<or> r \<ge> end_of_file t")
    case True
    then show ?thesis by (auto simp: read_data_fetched_def)
  next
    case False
    then have lt: "r < query_index t" "r < end_of_file t" by (simp_all add: not_le)
    have "unat r \<le> unat (query_index t)" using lt(1) by (simp add: word_less_nat_alt)
    then show ?thesis
      using False read_data_fetched_block [OF that lt, of b] query_clamps_nat [OF that(2)]
      by (simp add: Let_def)
  qed
  have ne: "(of_nat (spec_data_to_read (unat (buf_size t)) (unat (query_index t))
                         (unat (end_of_file t)) (unat r)) :: 32 word) \<noteq> 0"
    if "buf_size t \<noteq> 0" "r < query_index t" "r < end_of_file t" for t r
  proof -
    have "0 < unat (buf_size t)" using that(1) by (simp add: unat_gt_0)
    moreover have "unat r < unat (query_index t)" "unat r < unat (end_of_file t)"
      using that(2,3) by (simp_all add: word_less_nat_alt)
    ultimately show ?thesis
      using spec_data_to_read_bounds [of "unat r" "unat (query_index t)" "unat (end_of_file t)" "unat (buf_size t)"]
      by (intro of_nat_block_ne0 [of _ "buf_size t"]) simp_all
  qed
  have D: "(\<exists>s' b'. read_data_fetched file [] t r b = Some (Inr 0, s', b')) \<longleftrightarrow>
              (r \<ge> query_index t \<or> r \<ge> end_of_file t)"
    if "buf_size t \<noteq> 0" "unat r + unat (buf_size t) < 2 ^ 64" "unat (end_of_file t) \<le> length file"
    for t r
    using ne [OF that(1), of r] by (auto simp: B [OF that] Let_def not_le)
  have s1: "buf_size ?s1 \<noteq> 0" "unat (stream_off s) + unat (buf_size ?s1) < 2 ^ 64"
     "unat (end_of_file ?s1) \<le> length file"
    using bs nowrap long by simp_all
  have A: "read_data file [] s b =
           (if query_block s \<or> stream_off s \<ge> end_of_file s \<or> stream_off s \<ge> query_index s
            then Some (Inr 0, s, b)
            else
              (let n = spec_data_to_read (unat (buf_size s)) (unat (query_index s))
                         (unat (end_of_file s)) (unat (stream_off s))
               in Some (Inr (of_nat n),
                        s\<lparr>stream_off :=
                            (if unat (query_index s) < unat (stream_off s) + unat (buf_size s)
                             then query_index s else stream_off s + ucast (buf_size s))\<rparr>,
                        take n (drop (unat (stream_off s)) file) @ drop n b)))"
    by (simp add: read_data_def B [OF s1] Let_def)
  have C: "(\<exists>s' b'. read_data file [] s b = Some (Inr 0, s', b')) \<longleftrightarrow>
              (query_block s \<or> stream_off s \<ge> end_of_file s \<or> stream_off s \<ge> query_index s)"
    using D [OF s1] by (auto simp: read_data_def)
  show ?thesis
    using A B [OF bs nowrap' long] C D [OF bs nowrap' long] by blast
qed

lemma example_ctor_18: "BinaryGraphStream_MT_ctor 3 example_file 18 = Inr (example_stream 18)"
  by (simp add: BinaryGraphStream_MT_ctor_def example_file_def example_stream_def posix_read_def
        le_word_def le_nat_def edge_size_def header_size_def)

lemma example_ctor_8: "BinaryGraphStream_MT_ctor 3 example_file 8 = Inr (example_stream 0)"
  by (simp add: BinaryGraphStream_MT_ctor_def example_file_def example_stream_def posix_read_def
        le_word_def le_nat_def edge_size_def header_size_def)

lemma minus_one_le_iff: "(- 1 :: 64 word) \<le> x \<longleftrightarrow> x = - 1"
  by (rule word_order.extremum_unique)

lemma unat_minus_one_64: "unat (- 1 :: 64 word) = 18446744073709551615"
  by (simp add: unsigned_minus_1_eq_mask mask_eq_exp_minus_1)

lemma length_example_file: "length example_file = 39"
  by (simp add: example_file_def)

text \<open>With a buffer size below nine the buffer holds no record: \<open>read_data\<close> returns 0
  bytes on a fresh stream although no breakpoint condition holds.\<close>

theorem read_data_zero_buffer_counterexample:
  "BinaryGraphStream_MT_ctor 3 example_file 8 = Inr (example_stream 0)
   \<and> read_data example_file [] (example_stream 0) [] = Some (Inr 0, example_stream 0, [])
   \<and> \<not> (query_block (example_stream 0)
          \<or> stream_off (example_stream 0) \<ge> end_of_file (example_stream 0)
          \<or> stream_off (example_stream 0) \<ge> query_index (example_stream 0))"
  apply (simp add: example_ctor_8)
  apply (simp add: read_data_def read_data_fetched_def example_stream_def data_to_read_def query_clamps_def minus_one_le_iff)
  apply (simp add: pread_loop.simps)
  done

theorem read_data_breakpoint_or_block_witness:
  "read_data example_file [] (example_stream 18) [] =
     Some (Inr 18, (example_stream 18)\<lparr>stream_off := 30\<rparr>, take 18 (drop 12 example_file))
   \<and> read_data_fetched example_file [] ((example_stream 18)\<lparr>query_index := 21\<rparr>) 30 [] =
     Some (Inr 0, (example_stream 18)\<lparr>query_index := 21, stream_off := 21\<rparr>, [])"
  using read_data_breakpoint_or_block [of "example_stream 18" 12 example_file "[]"]
        read_data_breakpoint_or_block [of "(example_stream 18)\<lparr>query_index := 21\<rparr>" 30 example_file "[]"]
  apply (simp add: length_example_file)
  apply (simp add: example_stream_def spec_data_to_read_def minus_one_le_iff unat_minus_one_64)
  done

lemma ctor_fields:
  assumes "BinaryGraphStream_MT_ctor fd file b = Inr s"
  shows "stream_off s = 12" "query_index s = - 1" "\<not> query_block s"
        "end_of_file s = num_edges s * 9 + 12" "buf_size s = b - b mod 9"
  using assms
  by (auto simp: BinaryGraphStream_MT_ctor_def Let_def header_size_def edge_size_def
           split: if_splits)

lemma take_drop_within:
  assumes "a + k \<le> d"
  shows "take k (drop a xs) = take k (drop a (take d xs))"
proof -
  have "take k (drop a (take d xs)) = take k (take (d - a) (drop a xs))"
    by (simp add: drop_take)
  also have "\<dots> = take k (drop a xs)"
    using assms by (simp add: min_def)
  finally show ?thesis by simp
qed

lemma parse_update_cong:
  assumes "take d xs = take d ys" "p + 9 \<le> d"
  shows "parse_update xs p = parse_update ys p"
proof -
  have "take k (drop a xs) = take k (drop a ys)" if "a + k \<le> d" for a k
    using take_drop_within [OF that, of xs] take_drop_within [OF that, of ys] assms(1) by simp
  from this [of "p + 1" 4] this [of "p + 5" 4] this [of p 1] assms(2)
  show ?thesis by (simp add: parse_update_def)
qed

lemma parse_update_drop: "parse_update (drop base f) p = parse_update f (base + p)"
  by (simp add: parse_update_def ac_simps)

lemma parse_update_buffer:
  assumes "take d xs = take d (drop base f)" "p + 9 \<le> d"
  shows "parse_update xs p = parse_update f (base + p)"
  using parse_update_cong [OF assms] by (simp add: parse_update_drop)

lemma buf_size_dvd: "9 dvd unat ((b :: 32 word) - b mod 9)"
proof -
  have le: "b mod 9 \<le> b" by (simp add: word_le_nat_alt unat_mod)
  have "unat (b - b mod 9) = unat b - unat b mod 9"
    using le by (simp add: unat_sub unat_mod)
  then show ?thesis by (simp add: dvd_minus_mod)
qed

subsection \<open>Registering a query at index 0\<close>

text \<open>C9, as amended. On a freshly constructed multi-reader stream, before any read,
  \<open>register_query(0)\<close> is rejected: the byte offset of index 0 is \<open>header_size\<close>, which
  is not beyond \<open>stream_off\<close>, so the call returns false, leaves the stream as it is and no
  query is registered (\<open>query_index\<close> stays at its maximum).\<close>
theorem register_query_zero_rejected:
  assumes "BinaryGraphStream_MT_ctor fd file b = Inr s"
  shows "register_query s 0 = (False, s) \<and> query_index s = - 1"
  using ctor_fields [OF assms]
  by (simp add: register_query_def header_size_def)

theorem register_query_zero_rejected_witness:
  "register_query (example_stream 18) 0 = (False, example_stream 18)
   \<and> query_index (example_stream 18) = - 1"
  using register_query_zero_rejected [OF example_ctor_18] by simp

text \<open>On the example file the call returns false, and the first \<open>get_edge\<close> of a reader
  then returns the first record, not a breakpoint.\<close>

theorem register_query_zero_counterexample:
  "BinaryGraphStream_MT_ctor 3 example_file 18 = Inr (example_stream 18)
   \<and> fst (register_query (example_stream 18) 0) = False
   \<and> snd (register_query (example_stream 18) 0) = example_stream 18
   \<and> get_edge example_file [] (example_stream 18) (MT_StreamReader_ctor []) =
       Some (Inr \<lparr>edge = (0, 1), type = INSERT\<rparr>,
             (example_stream 18)\<lparr>stream_off := 30\<rparr>,
             \<lparr>start_buf = take 18 (drop 12 example_file), buf = 9, data_in_buf = 18\<rparr>)"
  apply (simp add: example_ctor_18)
  apply (simp add: register_query_def header_size_def edge_size_def example_stream_def)
  apply (simp add: get_edge_def MT_StreamReader_ctor_def read_data_def read_data_fetched_def 
       minus_one_le_iff data_to_read_def query_clamps_def)
  apply (simp add: pread_loop.simps example_file_def parse_update_def le_word_def le_nat_def INSERT_def edge_size_def)
  done

lemma unat_le_max64: "unat (x :: 64 word) \<le> 18446744073709551615"
  using unsigned_less [of x, where 'a = nat] by simp

lemma exhausted_nat: "exhausted r \<longleftrightarrow> unat (data_in_buf r) \<le> buf r"
  unfolding exhausted_def
  by (metis int_nat_eq nat_int nat_le_iff of_nat_le_iff uint_nonnegative unat_eq_nat_uint zle_int)

lemma read_data_breakpoint:
  "breakpoint_condition s \<Longrightarrow> read_data file os s b = Some (Inr 0, s, b)"
  by (simp add: read_data_def breakpoint_condition_def)

lemma get_edge_buffered:
  "\<not> exhausted r \<Longrightarrow>
     get_edge file os s r =
       Some (Inr (parse_update (start_buf r) (buf r)), s, r\<lparr>buf := buf r + 9\<rparr>)"
  by (simp add: get_edge_def exhausted_def edge_size_def)

lemma get_edge_sentinel:
  "breakpoint_condition s \<Longrightarrow> exhausted r \<Longrightarrow>
     get_edge file os s r = Some (Inr breakpoint_update, s, r\<lparr>data_in_buf := 0\<rparr>)"
  by (simp add: get_edge_def exhausted_def read_data_breakpoint)

lemma read_data_block:
  assumes bs: "buf_size s \<noteq> 0"
      and nowrap: "unat (stream_off s) + unat (buf_size s) < 2 ^ 64"
      and long: "unat (end_of_file s) \<le> length file"
      and nb: "\<not> breakpoint_condition s"
  shows "read_data file [] s b =
           Some (Inr (of_nat (spec_data_to_read (unat (buf_size s)) (unat (query_index s))
                                (unat (end_of_file s)) (unat (stream_off s)))),
                 s\<lparr>stream_off :=
                     (if unat (query_index s) < unat (stream_off s) + unat (buf_size s)
                      then query_index s else stream_off s + ucast (buf_size s))\<rparr>,
                 take (spec_data_to_read (unat (buf_size s)) (unat (query_index s))
                                (unat (end_of_file s)) (unat (stream_off s)))
                   (drop (unat (stream_off s)) file)
                 @ drop (spec_data_to_read (unat (buf_size s)) (unat (query_index s))
                                (unat (end_of_file s)) (unat (stream_off s))) b)"
proof -
  let ?s1 = "s\<lparr>stream_off := stream_off s + ucast (buf_size s)\<rparr>"
  have lt: "stream_off s < query_index ?s1" "stream_off s < end_of_file ?s1"
    using nb by (simp_all add: breakpoint_condition_def not_le)
  have le: "unat (stream_off s) \<le> unat (query_index s)"
    using lt(1) by (simp add: word_less_nat_alt)
  have s1: "buf_size ?s1 \<noteq> 0" "unat (stream_off s) + unat (buf_size ?s1) < 2 ^ 64"
     "unat (end_of_file ?s1) \<le> length file"
    using bs nowrap long by simp_all
  show ?thesis
    using nb read_data_fetched_block [OF s1 lt, of b] query_clamps_nat [OF s1(2)] le
    by (simp add: read_data_def breakpoint_condition_def)
qed

lemma get_edge_refill:
  assumes ex: "exhausted r"
      and nb: "\<not> breakpoint_condition s"
      and bs: "buf_size s \<noteq> 0"
      and nowrap: "unat (stream_off s) + unat (buf_size s) < 2 ^ 64"
      and long: "unat (end_of_file s) \<le> length file"
      and n: "n = spec_data_to_read (unat (buf_size s)) (unat (query_index s))
                    (unat (end_of_file s)) (unat (stream_off s))"
  shows "get_edge file [] s r =
           Some (Inr (parse_update (take n (drop (unat (stream_off s)) file) @ drop n (start_buf r)) 0),
                 s\<lparr>stream_off :=
                     (if unat (query_index s) < unat (stream_off s) + unat (buf_size s)
                      then query_index s else stream_off s + ucast (buf_size s))\<rparr>,
                 r\<lparr>start_buf := take n (drop (unat (stream_off s)) file) @ drop n (start_buf r),
                   data_in_buf := of_nat n, buf := 9\<rparr>)"
    and "0 < n" and "n \<le> unat (buf_size s)" and "unat (of_nat n :: 32 word) = n"
    and "n = min (unat (buf_size s))
               (min (unat (query_index s) - unat (stream_off s))
                    (unat (end_of_file s) - unat (stream_off s)))"
proof -
  have lt: "unat (stream_off s) < unat (query_index s)" "unat (stream_off s) < unat (end_of_file s)"
    using nb by (simp_all add: breakpoint_condition_def not_le word_less_nat_alt)
  have b0: "0 < unat (buf_size s)" using bs by (simp add: unat_gt_0)
  show npos: "0 < n" and nle: "n \<le> unat (buf_size s)"
    using spec_data_to_read_bounds [OF lt b0] by (simp_all add: n)
  show un: "unat (of_nat n :: 32 word) = n" using of_nat_block [OF nle] .
  show "n = min (unat (buf_size s))
               (min (unat (query_index s) - unat (stream_off s))
                    (unat (end_of_file s) - unat (stream_off s)))"
    using spec_data_to_read_min [OF lt] by (simp add: n)
  have ne: "(of_nat n :: 32 word) \<noteq> 0" using of_nat_block_ne0 [OF npos nle] .
  show "get_edge file [] s r =
           Some (Inr (parse_update (take n (drop (unat (stream_off s)) file) @ drop n (start_buf r)) 0),
                 s\<lparr>stream_off :=
                     (if unat (query_index s) < unat (stream_off s) + unat (buf_size s)
                      then query_index s else stream_off s + ucast (buf_size s))\<rparr>,
                 r\<lparr>start_buf := take n (drop (unat (stream_off s)) file) @ drop n (start_buf r),
                   data_in_buf := of_nat n, buf := 9\<rparr>)"
    using ex ne
    by (simp add: get_edge_def exhausted_def read_data_block [OF bs nowrap long nb]
          n [symmetric] edge_size_def)
qed

subsection \<open>A reader at a breakpoint\<close>

lemma get_edge_fetched_sentinel:
  "query_index s1 \<le> ro \<or> end_of_file s1 \<le> ro \<Longrightarrow>
     get_edge_fetched file os s1 ro r =
       Some (Inr breakpoint_update,
             (if query_index s1 \<le> ro then s1\<lparr>stream_off := query_index s1\<rparr> else s1),
             r\<lparr>data_in_buf := 0\<rparr>)"
  by (auto simp: get_edge_fetched_def read_data_fetched_def)

lemma resumed_fields:
  "buf_size (post_query_resume s) = buf_size s" "stream_off (post_query_resume s) = stream_off s"
  "end_of_file (post_query_resume s) = end_of_file s" "query_index (post_query_resume s) = - 1"
  "\<not> query_block (post_query_resume s)"
  by (simp_all add: post_query_resume_def)

lemma get_edge_resume_block:
  assumes lt: "stream_off s < end_of_file s"
      and bs: "buf_size s \<noteq> 0" and d9: "9 dvd unat (buf_size s)"
      and al: "9 dvd (unat (end_of_file s) - unat (stream_off s))"
      and nw: "unat (stream_off s) + unat (buf_size s) < 2 ^ 64"
      and lg: "unat (end_of_file s) \<le> length file"
      and n: "n = min (unat (buf_size s)) (unat (end_of_file s) - unat (stream_off s))"
      and r': "r' = r\<lparr>start_buf := take n (drop (unat (stream_off s)) file) @ drop n (start_buf r),
                       data_in_buf := of_nat n, buf := 9\<rparr>"
  shows "get_edge file [] (post_query_resume s) (r\<lparr>data_in_buf := 0\<rparr>) =
           Some (Inr (parse_update file (unat (stream_off s))),
                 (post_query_resume s)\<lparr>stream_off := stream_off s + ucast (buf_size s)\<rparr>, r')"
    and "9 \<le> n" and "9 dvd n" and "unat (data_in_buf r') = n"
    and "9 * j + 9 \<le> n \<Longrightarrow>
           get_edge file os2 s2 (r'\<lparr>buf := 9 * j\<rparr>) =
             Some (Inr (parse_update file (unat (stream_off s) + 9 * j)), s2,
                   r'\<lparr>buf := 9 * j + 9\<rparr>)"
    and "exhausted (r'\<lparr>buf := n\<rparr>)"
proof -
  let ?s = "post_query_resume s"
  let ?r = "r\<lparr>data_in_buf := 0\<rparr>"
  note f = resumed_fields [of s]
  define m where "m = spec_data_to_read (unat (buf_size ?s)) (unat (query_index ?s))
               (unat (end_of_file ?s)) (unat (stream_off ?s))"
  have so: "unat (stream_off s) < unat (end_of_file s)" using lt by (simp add: word_less_nat_alt)
  have so64: "unat (stream_off s) < 18446744073709551615"
    using so unat_le_max64 [of "end_of_file s"] by simp
  have nb: "\<not> breakpoint_condition ?s"
    using so so64
    by (simp add: breakpoint_condition_def f word_le_nat_alt unat_minus_one_64)
  have ex: "exhausted ?r" by (simp add: exhausted_def)
  have bs': "buf_size ?s \<noteq> 0" using bs by (simp add: f)
  have nw': "unat (stream_off ?s) + unat (buf_size ?s) < 2 ^ 64" using nw by (simp add: f)
  have lg': "unat (end_of_file ?s) \<le> length file" using lg by (simp add: f)
  note R = get_edge_refill [OF ex nb bs' nw' lg' m_def]
  have mn: "m = n"
    using R(5) unat_le_max64 [of "end_of_file s"] so64
    by (simp add: f unat_minus_one_64 n)
  have b0: "0 < unat (buf_size s)" using bs by (simp add: unat_gt_0)
  show d: "9 dvd n" unfolding n using d9 al by (simp add: min_def)
  have "0 < n" unfolding n using b0 so by simp
  then show n9: "9 \<le> n" using d by (auto elim: dvdE)
  have nlen: "unat (stream_off s) + n \<le> length file" using so lg unfolding n by arith
  have tk: "take n (start_buf r') = take n (drop (unat (stream_off s)) file)"
    using nlen by (simp add: r')
  have nq: "\<not> unat (query_index ?s) < unat (stream_off ?s) + unat (buf_size ?s)"
    using nw by (simp add: f unat_minus_one_64)
  have pu: "parse_update (start_buf r') 0 = parse_update file (unat (stream_off s))"
    using parse_update_buffer [OF tk, of 0] n9 by simp
  have sb: "start_buf r' = take n (drop (unat (stream_off s)) file) @ drop n (start_buf r)"
    by (simp add: r')
  show "get_edge file [] ?s ?r =
           Some (Inr (parse_update file (unat (stream_off s))),
                 ?s\<lparr>stream_off := stream_off s + ucast (buf_size s)\<rparr>, r')"
    unfolding R(1) mn using nq pu unfolding sb by (simp add: f r')
  show un: "unat (data_in_buf r') = n" using R(4) by (simp add: mn r')
  show "exhausted (r'\<lparr>buf := n\<rparr>)"
    using un by (simp add: exhausted_nat)
  assume j: "9 * j + 9 \<le> n"
  have ne: "\<not> exhausted (r'\<lparr>buf := 9 * j\<rparr>)"
    using un j by (simp add: exhausted_nat)
  have "parse_update (start_buf r') (9 * j) = parse_update file (unat (stream_off s) + 9 * j)"
    using parse_update_buffer [OF tk, of "9 * j"] j by simp
  then show "get_edge file os2 s2 (r'\<lparr>buf := 9 * j\<rparr>) =
             Some (Inr (parse_update file (unat (stream_off s) + 9 * j)), s2,
                   r'\<lparr>buf := 9 * j + 9\<rparr>)"
    using get_edge_buffered [OF ne] by simp
qed

text \<open>C10, as amended. A reader that has consumed its buffer, at a call of \<open>get_edge\<close>
  while a 0-byte fetch condition holds (\<open>query_block\<close> is set, or \<open>stream_off\<close> has
  reached \<open>query_index\<close> or \<open>end_of_file\<close>), is returned the sentinel; the call leaves the
  stream, the buffer contents and the buffer position as they are and sets \<open>data_in_buf\<close>
  to 0. The reader is then still at the end of its buffer, and the same call again returns
  the sentinel and changes nothing any more. The same holds of the part of the call after
  \<open>fetch_add\<close> when the offset obtained is at or beyond \<open>query_index\<close> (then
  \<open>query_index\<close> is stored to \<open>stream_off\<close>) or \<open>end_of_file\<close>. A reader that still
  holds records of its block is returned the next of them and advances by nine bytes,
  whatever the stream says, so that a pause loses no record that was fetched.

  After \<open>post_query_resume\<close>: at the end of the file the reader is returned the sentinel
  again. Before the end of the file, with a buffer of at least one record (\<open>buf_size\<close> a
  multiple of nine, not 0), \<open>stream_off\<close> and \<open>end_of_file\<close> a whole number of records
  apart, a file that holds its \<open>end_of_file\<close> bytes, no wrap-around of the offsets and
  reads transferred in full: the next \<open>get_edge\<close> fetches the
  \<open>n = min(buf_size, end_of_file - stream_off)\<close> bytes at \<open>stream_off\<close>, advances
  \<open>stream_off\<close> by \<open>buf_size\<close> and returns the record at \<open>stream_off\<close>; at buffer
  position \<open>9j\<close>, for every further record \<open>j\<close> of that block, the reader is returned the
  record at \<open>stream_off + 9j\<close> and moves to position \<open>9(j + 1)\<close>, and at position \<open>n\<close>
  its buffer is consumed. So the reader delivers the records from the stream position on,
  one after the other, none twice and none left out.\<close>
theorem get_edge_breakpoint_frame:
  "(breakpoint_condition s \<and> exhausted r \<longrightarrow>
      get_edge file os s r = Some (Inr breakpoint_update, s, r\<lparr>data_in_buf := 0\<rparr>)
      \<and> exhausted (r\<lparr>data_in_buf := 0\<rparr>)
      \<and> get_edge file os s (r\<lparr>data_in_buf := 0\<rparr>)
          = Some (Inr breakpoint_update, s, r\<lparr>data_in_buf := 0\<rparr>))
   \<and> (query_index s \<le> ro \<or> end_of_file s \<le> ro \<longrightarrow>
      get_edge_fetched file os s ro r =
        Some (Inr breakpoint_update,
              (if query_index s \<le> ro then s\<lparr>stream_off := query_index s\<rparr> else s),
              r\<lparr>data_in_buf := 0\<rparr>))
   \<and> (\<not> exhausted r \<longrightarrow>
      get_edge file os s r =
        Some (Inr (parse_update (start_buf r) (buf r)), s, r\<lparr>buf := buf r + 9\<rparr>))
   \<and> (end_of_file s \<le> stream_off s \<longrightarrow>
      get_edge file os (post_query_resume s) (r\<lparr>data_in_buf := 0\<rparr>)
        = Some (Inr breakpoint_update, post_query_resume s, r\<lparr>data_in_buf := 0\<rparr>))
   \<and> (stream_off s < end_of_file s
        \<and> buf_size s \<noteq> 0 \<and> 9 dvd unat (buf_size s)
        \<and> 9 dvd (unat (end_of_file s) - unat (stream_off s))
        \<and> unat (stream_off s) + unat (buf_size s) < 2 ^ 64
        \<and> unat (end_of_file s) \<le> length file \<longrightarrow>
      (\<exists>n r'. n = min (unat (buf_size s)) (unat (end_of_file s) - unat (stream_off s))
         \<and> r' = r\<lparr>start_buf := take n (drop (unat (stream_off s)) file) @ drop n (start_buf r),
                   data_in_buf := of_nat n, buf := 9\<rparr>
         \<and> get_edge file [] (post_query_resume s) (r\<lparr>data_in_buf := 0\<rparr>) =
             Some (Inr (parse_update file (unat (stream_off s))),
                   (post_query_resume s)\<lparr>stream_off := stream_off s + ucast (buf_size s)\<rparr>, r')
         \<and> 9 \<le> n \<and> 9 dvd n \<and> unat (data_in_buf r') = n
         \<and> (\<forall>j s2 os2. 9 * j + 9 \<le> n \<longrightarrow>
               get_edge file os2 s2 (r'\<lparr>buf := 9 * j\<rparr>) =
                 Some (Inr (parse_update file (unat (stream_off s) + 9 * j)), s2,
                       r'\<lparr>buf := 9 * j + 9\<rparr>))
         \<and> exhausted (r'\<lparr>buf := n\<rparr>)))"
proof (intro conjI impI)
  assume a: "breakpoint_condition s \<and> exhausted r"
  then show "get_edge file os s r = Some (Inr breakpoint_update, s, r\<lparr>data_in_buf := 0\<rparr>)"
    by (simp add: get_edge_sentinel)
  have e: "exhausted (r\<lparr>data_in_buf := 0\<rparr>)" by (simp add: exhausted_def)
  from get_edge_sentinel [OF _ e] a
  show "get_edge file os s (r\<lparr>data_in_buf := 0\<rparr>)
          = Some (Inr breakpoint_update, s, r\<lparr>data_in_buf := 0\<rparr>)"
    by simp
next
  show "exhausted (r\<lparr>data_in_buf := 0\<rparr>)" by (simp add: exhausted_def)
next
  assume "query_index s \<le> ro \<or> end_of_file s \<le> ro"
  then show "get_edge_fetched file os s ro r =
        Some (Inr breakpoint_update,
              (if query_index s \<le> ro then s\<lparr>stream_off := query_index s\<rparr> else s),
              r\<lparr>data_in_buf := 0\<rparr>)"
    by (rule get_edge_fetched_sentinel)
next
  assume "\<not> exhausted r"
  then show "get_edge file os s r =
        Some (Inr (parse_update (start_buf r) (buf r)), s, r\<lparr>buf := buf r + 9\<rparr>)"
    by (rule get_edge_buffered)
next
  assume "end_of_file s \<le> stream_off s"
  then have b: "breakpoint_condition (post_query_resume s)"
    by (simp add: breakpoint_condition_def resumed_fields)
  have e: "exhausted (r\<lparr>data_in_buf := 0\<rparr>)" by (simp add: exhausted_def)
  from get_edge_sentinel [OF b e]
  show "get_edge file os (post_query_resume s) (r\<lparr>data_in_buf := 0\<rparr>)
        = Some (Inr breakpoint_update, post_query_resume s, r\<lparr>data_in_buf := 0\<rparr>)"
    by simp
next
  assume a: "stream_off s < end_of_file s
        \<and> buf_size s \<noteq> 0 \<and> 9 dvd unat (buf_size s)
        \<and> 9 dvd (unat (end_of_file s) - unat (stream_off s))
        \<and> unat (stream_off s) + unat (buf_size s) < 2 ^ 64
        \<and> unat (end_of_file s) \<le> length file"
  define n where "n = min (unat (buf_size s)) (unat (end_of_file s) - unat (stream_off s))"
  define r' where "r' = r\<lparr>start_buf := take n (drop (unat (stream_off s)) file) @ drop n (start_buf r),
                   data_in_buf := of_nat n, buf := 9\<rparr>"
  from a have h: "stream_off s < end_of_file s" "buf_size s \<noteq> 0" "9 dvd unat (buf_size s)"
     "9 dvd (unat (end_of_file s) - unat (stream_off s))"
     "unat (stream_off s) + unat (buf_size s) < 2 ^ 64" "unat (end_of_file s) \<le> length file"
    by simp_all
  note B = get_edge_resume_block [OF h n_def r'_def]
  show "\<exists>n r'. n = min (unat (buf_size s)) (unat (end_of_file s) - unat (stream_off s))
         \<and> r' = r\<lparr>start_buf := take n (drop (unat (stream_off s)) file) @ drop n (start_buf r),
                   data_in_buf := of_nat n, buf := 9\<rparr>
         \<and> get_edge file [] (post_query_resume s) (r\<lparr>data_in_buf := 0\<rparr>) =
             Some (Inr (parse_update file (unat (stream_off s))),
                   (post_query_resume s)\<lparr>stream_off := stream_off s + ucast (buf_size s)\<rparr>, r')
         \<and> 9 \<le> n \<and> 9 dvd n \<and> unat (data_in_buf r') = n
         \<and> (\<forall>j s2 os2. 9 * j + 9 \<le> n \<longrightarrow>
               get_edge file os2 s2 (r'\<lparr>buf := 9 * j\<rparr>) =
                 Some (Inr (parse_update file (unat (stream_off s) + 9 * j)), s2,
                       r'\<lparr>buf := 9 * j + 9\<rparr>))
         \<and> exhausted (r'\<lparr>buf := n\<rparr>)"
    apply (rule exI [of _ n], rule exI [of _ r'])
    apply (intro conjI allI impI)
    subgoal by (rule n_def)
    subgoal by (rule r'_def)
    subgoal by (rule B(1))
    subgoal by (rule B(2))
    subgoal by (rule B(3))
    subgoal by (rule B(4))
    subgoal by (rule B(5))
    subgoal by (rule B(6))
    done
qed

lemma example_records:
  "parse_update example_file 12 = \<lparr>edge = (0, 1), type = INSERT\<rparr>"
  "parse_update example_file 21 = \<lparr>edge = (1, 2), type = INSERT\<rparr>"
  "parse_update example_file 30 = \<lparr>edge = (0, 2), type = INSERT\<rparr>"
  by (simp_all add: parse_update_def example_file_def le_word_def le_nat_def INSERT_def)

lemma example_paused:
  "breakpoint_condition example_paused_stream" "exhausted example_paused_reader"
  "stream_off example_paused_stream < end_of_file example_paused_stream"
  "buf_size example_paused_stream \<noteq> 0" "9 dvd unat (buf_size example_paused_stream)"
  "9 dvd (unat (end_of_file example_paused_stream) - unat (stream_off example_paused_stream))"
  "unat (stream_off example_paused_stream) + unat (buf_size example_paused_stream) < 2 ^ 64"
  "unat (end_of_file example_paused_stream) \<le> length example_file"
  "min (unat (buf_size example_paused_stream))
       (unat (end_of_file example_paused_stream) - unat (stream_off example_paused_stream)) = 18"
  "unat (stream_off example_paused_stream) = 21"
  "post_query_resume example_paused_stream = (example_stream 18)\<lparr>stream_off := 21\<rparr>"
  by (simp_all add: example_paused_stream_def example_paused_reader_def example_stream_def
        breakpoint_condition_def exhausted_def length_example_file post_query_resume_def)

theorem get_edge_breakpoint_frame_witness:
  "get_edge example_file [] example_paused_stream example_paused_reader
     = Some (Inr breakpoint_update, example_paused_stream,
             example_paused_reader\<lparr>data_in_buf := 0\<rparr>)
   \<and> get_edge example_file [] example_paused_stream (example_paused_reader\<lparr>data_in_buf := 0\<rparr>)
     = Some (Inr breakpoint_update, example_paused_stream,
             example_paused_reader\<lparr>data_in_buf := 0\<rparr>)
   \<and> get_edge example_file [] (post_query_resume example_paused_stream)
        (example_paused_reader\<lparr>data_in_buf := 0\<rparr>)
     = Some (Inr \<lparr>edge = (1, 2), type = INSERT\<rparr>, (example_stream 18)\<lparr>stream_off := 39\<rparr>,
             \<lparr>start_buf = take 18 (drop 21 example_file), buf = 9, data_in_buf = 18\<rparr>)
   \<and> get_edge example_file [] ((example_stream 18)\<lparr>stream_off := 39\<rparr>)
        \<lparr>start_buf = take 18 (drop 21 example_file), buf = 9, data_in_buf = 18\<rparr>
     = Some (Inr \<lparr>edge = (0, 2), type = INSERT\<rparr>, (example_stream 18)\<lparr>stream_off := 39\<rparr>,
             \<lparr>start_buf = take 18 (drop 21 example_file), buf = 18, data_in_buf = 18\<rparr>)
   \<and> get_edge example_file [] (on_demand_query ((example_stream 18)\<lparr>stream_off := 30\<rparr>))
        (example_reader 9)
     = Some (Inr (parse_update (start_buf (example_reader 9)) 9),
             on_demand_query ((example_stream 18)\<lparr>stream_off := 30\<rparr>),
             (example_reader 9)\<lparr>buf := 18\<rparr>)
   \<and> get_edge example_file [] (post_query_resume ((example_stream 18)\<lparr>stream_off := 39\<rparr>))
        (example_reader 18\<lparr>data_in_buf := 0\<rparr>)
     = Some (Inr breakpoint_update, post_query_resume ((example_stream 18)\<lparr>stream_off := 39\<rparr>),
             example_reader 18\<lparr>data_in_buf := 0\<rparr>)"
proof -
  note T = get_edge_breakpoint_frame [of example_paused_stream example_paused_reader
             example_file "[]" 0]
  from T example_paused(1,2)
  have A: "get_edge example_file [] example_paused_stream example_paused_reader
     = Some (Inr breakpoint_update, example_paused_stream,
             example_paused_reader\<lparr>data_in_buf := 0\<rparr>)"
    "get_edge example_file [] example_paused_stream (example_paused_reader\<lparr>data_in_buf := 0\<rparr>)
     = Some (Inr breakpoint_update, example_paused_stream,
             example_paused_reader\<lparr>data_in_buf := 0\<rparr>)"
    by blast+
  from T example_paused(3-8)
  obtain n r' where
    B: "n = min (unat (buf_size example_paused_stream))
              (unat (end_of_file example_paused_stream) - unat (stream_off example_paused_stream))"
       "r' = example_paused_reader\<lparr>start_buf :=
                 take n (drop (unat (stream_off example_paused_stream)) example_file)
                 @ drop n (start_buf example_paused_reader),
               data_in_buf := of_nat n, buf := 9\<rparr>"
       "get_edge example_file [] (post_query_resume example_paused_stream)
           (example_paused_reader\<lparr>data_in_buf := 0\<rparr>) =
         Some (Inr (parse_update example_file (unat (stream_off example_paused_stream))),
               (post_query_resume example_paused_stream)\<lparr>stream_off :=
                  stream_off example_paused_stream + ucast (buf_size example_paused_stream)\<rparr>, r')"
       "\<forall>j s2 os2. 9 * j + 9 \<le> n \<longrightarrow>
               get_edge example_file os2 s2 (r'\<lparr>buf := 9 * j\<rparr>) =
                 Some (Inr (parse_update example_file
                              (unat (stream_off example_paused_stream) + 9 * j)), s2,
                       r'\<lparr>buf := 9 * j + 9\<rparr>)"
    by blast
  have n: "n = 18" using B(1) example_paused(9) by simp
  have r': "r' = \<lparr>start_buf = take 18 (drop 21 example_file), buf = 9, data_in_buf = 18\<rparr>"
    unfolding B(2) n example_paused(10) by (simp add: example_paused_reader_def)
  have C: "get_edge example_file [] (post_query_resume example_paused_stream)
        (example_paused_reader\<lparr>data_in_buf := 0\<rparr>)
     = Some (Inr \<lparr>edge = (1, 2), type = INSERT\<rparr>, (example_stream 18)\<lparr>stream_off := 39\<rparr>,
             \<lparr>start_buf = take 18 (drop 21 example_file), buf = 9, data_in_buf = 18\<rparr>)"
    using B(3) unfolding r' example_paused(10,11) example_records
    by (simp add: example_paused_stream_def example_stream_def)
  from B(4) [rule_format, of 1 "[]" "(example_stream 18)\<lparr>stream_off := 39\<rparr>"]
  have D: "get_edge example_file [] ((example_stream 18)\<lparr>stream_off := 39\<rparr>)
        \<lparr>start_buf = take 18 (drop 21 example_file), buf = 9, data_in_buf = 18\<rparr>
     = Some (Inr \<lparr>edge = (0, 2), type = INSERT\<rparr>, (example_stream 18)\<lparr>stream_off := 39\<rparr>,
             \<lparr>start_buf = take 18 (drop 21 example_file), buf = 18, data_in_buf = 18\<rparr>)"
    unfolding n r' example_paused(10) by (simp add: example_records)
  from get_edge_breakpoint_frame [of "on_demand_query ((example_stream 18)\<lparr>stream_off := 30\<rparr>)"
          "example_reader 9" example_file "[]" 0]
  have E: "get_edge example_file [] (on_demand_query ((example_stream 18)\<lparr>stream_off := 30\<rparr>))
        (example_reader 9)
     = Some (Inr (parse_update (start_buf (example_reader 9)) 9),
             on_demand_query ((example_stream 18)\<lparr>stream_off := 30\<rparr>),
             (example_reader 9)\<lparr>buf := 18\<rparr>)"
    by (simp add: exhausted_def example_reader_def)
  from get_edge_breakpoint_frame [of "(example_stream 18)\<lparr>stream_off := 39\<rparr>"
          "example_reader 18" example_file "[]" 0]
  have F: "get_edge example_file [] (post_query_resume ((example_stream 18)\<lparr>stream_off := 39\<rparr>))
        (example_reader 18\<lparr>data_in_buf := 0\<rparr>)
     = Some (Inr breakpoint_update, post_query_resume ((example_stream 18)\<lparr>stream_off := 39\<rparr>),
             example_reader 18\<lparr>data_in_buf := 0\<rparr>)"
    by (simp add: example_stream_def)
  show ?thesis using A C D E F by blast
qed

text \<open>During a pause a reader in the middle of its block returns the next record, not
  the sentinel; the breakpoint overwrites \<open>data_in_buf\<close>; and with a buffer size below
  nine (\<open>buf_size = 0\<close>) the reader is returned the sentinel during the pause and again
  after \<open>post_query_resume\<close>, although the records of the file are still to be read.\<close>

theorem get_edge_during_pause_counterexample:
  "breakpoint_condition (on_demand_query ((example_stream 18)\<lparr>stream_off := 30\<rparr>))
   \<and> get_edge example_file [] (on_demand_query ((example_stream 18)\<lparr>stream_off := 30\<rparr>))
       (example_reader 9)
     = Some (Inr \<lparr>edge = (1, 2), type = INSERT\<rparr>,
             on_demand_query ((example_stream 18)\<lparr>stream_off := 30\<rparr>),
             example_reader 18)
   \<and> \<lparr>edge = (1, 2), type = INSERT\<rparr> \<noteq> breakpoint_update
   \<and> get_edge example_file [] (on_demand_query ((example_stream 18)\<lparr>stream_off := 30\<rparr>))
       (example_reader 18)
     = Some (Inr breakpoint_update, on_demand_query ((example_stream 18)\<lparr>stream_off := 30\<rparr>),
             (example_reader 18)\<lparr>data_in_buf := 0\<rparr>)
   \<and> data_in_buf ((example_reader 18)\<lparr>data_in_buf := 0\<rparr>) \<noteq> data_in_buf (example_reader 18)
   \<and> BinaryGraphStream_MT_ctor 3 example_file 8 = Inr (example_stream 0)
   \<and> get_edge example_file [] (on_demand_query (example_stream 0)) (MT_StreamReader_ctor [])
     = Some (Inr breakpoint_update, on_demand_query (example_stream 0), MT_StreamReader_ctor [])
   \<and> post_query_resume (on_demand_query (example_stream 0)) = example_stream 0
   \<and> stream_off (example_stream 0) < end_of_file (example_stream 0)
   \<and> get_edge example_file [] (example_stream 0) (MT_StreamReader_ctor [])
     = Some (Inr breakpoint_update, example_stream 0, MT_StreamReader_ctor [])"
  apply (intro conjI)
  subgoal by (simp add: breakpoint_condition_def on_demand_query_def)
  subgoal by (simp add: breakpoint_condition_def on_demand_query_def example_stream_def get_edge_def
        example_reader_def read_data_def example_file_def parse_update_def le_word_def le_nat_def
        INSERT_def BREAKPOINT_def breakpoint_update_def edge_size_def)
  subgoal by (simp add: breakpoint_update_def INSERT_def BREAKPOINT_def)
  subgoal by (simp add: on_demand_query_def example_stream_def get_edge_def
        example_reader_def read_data_def)
  subgoal by (simp add: example_reader_def)
  subgoal by (rule example_ctor_8)
  subgoal by (simp add: on_demand_query_def get_edge_def MT_StreamReader_ctor_def read_data_def)
  subgoal by (simp add: on_demand_query_def post_query_resume_def example_stream_def)
  subgoal by (simp add: example_stream_def)
  subgoal by (simp add: get_edge_def MT_StreamReader_ctor_def read_data_def read_data_fetched_def
        example_stream_def data_to_read_def query_clamps_def minus_one_le_iff pread_loop.simps)
  done

subsection \<open>Short reads\<close>

text \<open>C4. The read loop asks again after a short read, but for the whole amount and into
  the start of the buffer. On the example file with a buffer of 18 bytes, when the first
  \<open>pread\<close> transfers 9 bytes only, the second one overwrites them with the 18 bytes from
  offset 21: \<open>read_data\<close> returns 27 although \<open>data_to_read\<close> is 18, and the buffer holds
  the second and third record, not the first and second.\<close>
theorem read_data_short_read:
  "read_data example_file [PLimit 9] (example_stream 18) (replicate 18 0)
     = Some (Inr 27, (example_stream 18)\<lparr>stream_off := 30\<rparr>, drop 21 example_file)
   \<and> data_to_read ((example_stream 18)\<lparr>stream_off := 30\<rparr>) 12 = 18
   \<and> take 18 (drop 12 example_file) \<noteq> drop 21 example_file"
  apply (simp add: read_data_def read_data_fetched_def example_stream_def data_to_read_def
        query_clamps_def minus_one_le_iff)
  apply (simp add: pread_loop.simps example_file_def)
  done

text \<open>The loop raises \<open>StreamFailed\<close> only when a \<open>pread\<close> fails.\<close>

lemma pread_loop_error:
  "pread_loop f ols n ro cb d = Some (Inl e) \<Longrightarrow> e = StreamFailed \<and> PErr \<in> set ols"
proof (induction f ols n ro cb d rule: pread_loop.induct)
  case (1 f ols n ro cb d)
  note prem = "1.prems" [unfolded pread_loop.simps [of f ols n ro cb d]]
  show ?case
  proof (cases "d < n")
    case False
    with prem show ?thesis by simp
  next
    case True
    show ?thesis
    proof (cases ols)
      case Nil
      let ?bs = "take n (drop (ro + d) f)"
      from prem True Nil have ne: "?bs \<noteq> []"
        by (auto simp: Let_def split: if_splits)
      from prem True Nil ne
      have "pread_loop f [] n ro (?bs @ drop (length ?bs) cb) (d + length ?bs) = Some (Inl e)"
        by (simp add: Let_def del: length_take length_drop)
      from "1.IH"(1) [OF True Nil refl ne this] Nil show ?thesis by simp
    next
      case (Cons o1 os')
      show ?thesis
      proof (cases o1)
        case PErr
        with prem True Cons show ?thesis by simp
      next
        case (PLimit m)
        let ?bs = "take (min m n) (drop (ro + d) f)"
        from prem True Cons PLimit
        have "pread_loop f os' n ro (?bs @ drop (length ?bs) cb) (d + length ?bs) = Some (Inl e)"
          by (simp add: Let_def del: length_take length_drop)
        from "1.IH"(2) [OF True Cons PLimit refl this] Cons show ?thesis by simp
      qed
    qed
  qed
qed

subsection \<open>Construction\<close>

text \<open>C8. The constructor of \<open>BinaryGraphStream\<close> does not look at the result of its two
  header reads: on an empty file it returns a stream without raising anything. The
  constructor of \<open>BinaryGraphStream_MT\<close> raises \<open>BadStream\<close> there, as it does when
  \<open>open\<close> fails (the read on descriptor \<open>-1\<close> fails), and also when \<open>open\<close> succeeds
  with descriptor 0.\<close>
theorem BinaryGraphStream_ctor_short_header:
  "BinaryGraphStream_ctor (Some []) 18 [] =
     Inr \<lparr> bin_file = \<lparr> content = [], pos = 0, failbit = True, eofbit = True \<rparr>,
           start_buf = [], buf = 0, buf_size = 18, num_nodes = 0, num_edges = 0 \<rparr>
   \<and> BinaryGraphStream_MT_ctor 3 [] 18 = Inl BadStream
   \<and> BinaryGraphStream_MT_ctor 0 example_file 18 = Inl BadStream
   \<and> BinaryGraphStream_MT_ctor (- 1) [] 18 = Inl BadStream
   \<and> BinaryGraphStream_ctor None 18 [] = Inl BadStream"
  by (simp add: BinaryGraphStream_ctor_def BinaryGraphStream_read_data_def ifstream_read_def
        BinaryGraphStream_MT_ctor_def posix_read_def le_word_def le_nat_def edge_size_def)

subsection \<open>Several readers: every record exactly once\<close>

lemma sum_list_mset_update:
  fixes g :: "'a \<Rightarrow> 'b multiset"
  shows "i < length ps \<Longrightarrow> (\<Sum>p\<leftarrow>ps[i := q]. g p) + g (ps ! i) = (\<Sum>p\<leftarrow>ps. g p) + g q"
proof (induction ps arbitrary: i)
  case Nil
  then show ?case by simp
next
  case (Cons a ps)
  show ?case
  proof (cases i)
    case 0
    then show ?thesis by simp
  next
    case (Suc j)
    then have "j < length ps" using Cons.prems by simp
    from Cons.IH [OF this] Suc show ?thesis by (simp add: ac_simps)
  qed
qed

lemma mset_upt_split: "lo < hi \<Longrightarrow> mset [lo..<hi] = add_mset lo (mset [Suc lo..<hi])"
  by (simp add: upt_conv_Cons)

lemma mset_upt_append: "a \<le> b \<Longrightarrow> mset [0..<a] + mset [a..<b] = mset [0..<b]"
proof -
  assume "a \<le> b"
  then have "[0..<b] = [0..<a] @ [a..<b]"
    by (metis le_add_diff_inverse upt_add_eq_append zero_le)
  then show ?thesis by simp
qed

text \<open>A reader that holds records returns the next one and keeps the rest.\<close>
lemma reader_ok_buffered:
  assumes ok: "reader_ok file r (lo, hi)" and lt: "lo < hi"
  shows "\<not> exhausted r"
    and "parse_update (start_buf r) (buf r) = file_update file lo"
    and "reader_ok file (r\<lparr>buf := buf r + 9\<rparr>) (Suc lo, hi)"
proof -
  from ok lt obtain base where b: "base \<le> lo" "buf r = 9 * (lo - base)"
      "unat (data_in_buf r) = 9 * (hi - base)"
      "take (9 * (hi - base)) (start_buf r) = take (9 * (hi - base)) (drop (12 + 9 * base) file)"
    by (auto simp: reader_ok_def)
  have bl: "buf r < unat (data_in_buf r)" using b(1,2,3) lt by simp
  then show "\<not> exhausted r"
    by (simp add: exhausted_nat)
  have "buf r + 9 \<le> 9 * (hi - base)" using b(1,2) lt by simp
  from parse_update_buffer [OF b(4) this]
  show "parse_update (start_buf r) (buf r) = file_update file lo"
    using b(1,2) by (simp add: file_update_def algebra_simps)
  have nb: "buf r + 9 = 9 * (Suc lo - base)" using b(1,2) by simp
  show "reader_ok file (r\<lparr>buf := buf r + 9\<rparr>) (Suc lo, hi)"
  proof (cases "Suc lo = hi")
    case True
    then have "unat (data_in_buf r) = buf r + 9" using b(3) nb by simp
    then show ?thesis using True by (simp add: reader_ok_def exhausted_nat)
  next
    case False
    then have "Suc lo < hi" using lt by simp
    moreover have "base \<le> Suc lo" using b(1) by simp
    ultimately show ?thesis
      using b(3,4) nb by (auto simp: reader_ok_def)
  qed
qed

text \<open>\<open>get_edge\<close> is its check followed at once by its fetch: the two steps of a
  reader, taken with no other reader in between, are one call.\<close>

lemma get_edge_split:
  "get_edge file os s r =
     (if exhausted r then
        (if breakpoint_condition s then Some (Inr breakpoint_update, s, r\<lparr>data_in_buf := 0\<rparr>)
         else get_edge_fetched file os (s\<lparr>stream_off := stream_off s + ucast (buf_size s)\<rparr>)
                (stream_off s) r)
      else Some (Inr (parse_update (start_buf r) (buf r)), s, r\<lparr>buf := buf r + 9\<rparr>))"
  by (simp add: get_edge_sentinel get_edge_buffered)
     (simp add: get_edge_def get_edge_fetched_def read_data_def breakpoint_condition_def
        exhausted_def)

lemma get_edge_fetched_zero:
  assumes "read_off \<ge> query_index s1 \<or> read_off \<ge> end_of_file s1"
  shows "get_edge_fetched file os s1 read_off r =
           Some (Inr breakpoint_update,
                 (if read_off \<ge> query_index s1 then s1\<lparr>stream_off := query_index s1\<rparr> else s1),
                 r\<lparr>data_in_buf := 0\<rparr>)"
  using assms by (auto simp: get_edge_fetched_def read_data_fetched_def)

lemma get_edge_fetched_block:
  assumes bs: "buf_size s1 \<noteq> 0"
      and nowrap: "unat ro + unat (buf_size s1) < 2 ^ 64"
      and long: "unat (end_of_file s1) \<le> length file"
      and lt_q: "ro < query_index s1" and lt_e: "ro < end_of_file s1"
      and n: "n = spec_data_to_read (unat (buf_size s1)) (unat (query_index s1))
                    (unat (end_of_file s1)) (unat ro)"
  shows "get_edge_fetched file [] s1 ro r =
           Some (Inr (parse_update (take n (drop (unat ro) file) @ drop n (start_buf r)) 0),
                 (if unat (query_index s1) < unat ro + unat (buf_size s1)
                  then s1\<lparr>stream_off := query_index s1\<rparr> else s1),
                 r\<lparr>start_buf := take n (drop (unat ro) file) @ drop n (start_buf r),
                   data_in_buf := of_nat n, buf := 9\<rparr>)"
    and "0 < n" and "n \<le> unat (buf_size s1)" and "unat (of_nat n :: 32 word) = n"
    and "n = min (unat (buf_size s1))
               (min (unat (query_index s1) - unat ro) (unat (end_of_file s1) - unat ro))"
proof -
  have lt: "unat ro < unat (query_index s1)" "unat ro < unat (end_of_file s1)"
    using lt_q lt_e by (simp_all add: word_less_nat_alt)
  have b0: "0 < unat (buf_size s1)" using bs by (simp add: unat_gt_0)
  show npos: "0 < n" and nle: "n \<le> unat (buf_size s1)"
    using spec_data_to_read_bounds [OF lt b0] by (simp_all add: n)
  show un: "unat (of_nat n :: 32 word) = n" using of_nat_block [OF nle] .
  show "n = min (unat (buf_size s1))
               (min (unat (query_index s1) - unat ro) (unat (end_of_file s1) - unat ro))"
    using spec_data_to_read_min [OF lt] by (simp add: n)
  have ne: "(of_nat n :: 32 word) \<noteq> 0" using of_nat_block_ne0 [OF npos nle] .
  have qc: "query_clamps s1 ro \<longleftrightarrow> unat (query_index s1) < unat ro + unat (buf_size s1)"
    using query_clamps_nat [OF nowrap] lt(1) by simp
  show "get_edge_fetched file [] s1 ro r =
           Some (Inr (parse_update (take n (drop (unat ro) file) @ drop n (start_buf r)) 0),
                 (if unat (query_index s1) < unat ro + unat (buf_size s1)
                  then s1\<lparr>stream_off := query_index s1\<rparr> else s1),
                 r\<lparr>start_buf := take n (drop (unat ro) file) @ drop n (start_buf r),
                   data_in_buf := of_nat n, buf := 9\<rparr>)"
    using ne
    by (simp add: get_edge_fetched_def read_data_fetched_block [OF bs nowrap long lt_q lt_e]
          n [symmetric] qc edge_size_def)
qed

lemma reader_fetched_block:
  assumes ok: "stream_ok file k s0" and k: "0 < k"
      and c: "buf_size s = buf_size s0" "end_of_file s = end_of_file s0"
             "query_index s = query_index s0" "\<not> query_block s"
      and al: "12 \<le> unat (stream_off s)" "9 dvd (unat (stream_off s) - 12)"
      and lt: "unat (stream_off s) < stream_limit s0"
  shows "\<exists>s' r' m. get_edge_fetched file []
               (s\<lparr>stream_off := stream_off s + ucast (buf_size s)\<rparr>) (stream_off s) r
             = Some (Inr (file_update file ((unat (stream_off s) - 12) div 9)), s', r')
           \<and> buf_size s' = buf_size s0 \<and> end_of_file s' = end_of_file s0
           \<and> query_index s' = query_index s0 \<and> \<not> query_block s'
           \<and> 12 \<le> unat (stream_off s') \<and> 9 dvd (unat (stream_off s') - 12)
           \<and> unat (stream_off s') \<le> unat (stream_off s) + unat (buf_size s0)
           \<and> (unat (query_index s0) \<le> unat (end_of_file s0)
                \<longrightarrow> unat (stream_off s') \<le> unat (query_index s0))
           \<and> 0 < m
           \<and> (min (unat (stream_off s')) (stream_limit s0) - 12) div 9
                = (unat (stream_off s) - 12) div 9 + m
           \<and> reader_ok file r' (Suc ((unat (stream_off s) - 12) div 9),
                                  (unat (stream_off s) - 12) div 9 + m)"
proof -
  define so where "so = unat (stream_off s)"
  define bsz where "bsz = unat (buf_size s)"
  define Q where "Q = unat (query_index s)"
  define E where "E = unat (end_of_file s)"
  define L where "L = min Q E"
  define base where "base = (so - 12) div 9"
  let ?s1 = "s\<lparr>stream_off := stream_off s + ucast (buf_size s)\<rparr>"
  define n where "n = spec_data_to_read (unat (buf_size ?s1)) (unat (query_index ?s1))
                    (unat (end_of_file ?s1)) (unat (stream_off s))"
  have Ls: "stream_limit s0 = L" by (simp add: stream_limit_def L_def Q_def E_def c)
  from ok have sk: "buf_size s \<noteq> 0" "9 dvd bsz" "12 \<le> L" "9 dvd (L - 12)"
      "E + k * bsz < 2 ^ 64" "E \<le> length file"
      "E + k * bsz \<le> Q \<or> 12 \<le> Q \<and> 9 dvd (Q - 12)"
    by (simp_all add: stream_ok_def Ls c bsz_def E_def Q_def)
  have soL: "so < L" using lt by (simp add: Ls so_def)
  then have ltn: "so < Q" "so < E" by (simp_all add: L_def)
  have kb: "bsz \<le> k * bsz" using k by simp
  have nw0: "so + bsz < 2 ^ 64" using sk(5) ltn(2) kb by linarith
  have nowrap: "unat (stream_off s) + unat (buf_size ?s1) < 2 ^ 64"
    using nw0 unfolding so_def bsz_def by simp
  have long: "unat (end_of_file ?s1) \<le> length file" using sk(6) by (simp add: E_def)
  have bs1: "buf_size ?s1 \<noteq> 0" using sk(1) by simp
  have lq: "stream_off s < query_index ?s1" and le: "stream_off s < end_of_file ?s1"
    using ltn by (simp_all add: word_less_nat_alt so_def Q_def E_def)
  note R = get_edge_fetched_block [OF bs1 nowrap long lq le n_def]
  have "min (Q - so) (E - so) = min Q E - so" by arith
  then have n: "n = min bsz (L - so)"
    using R(5) by (simp add: so_def bsz_def Q_def E_def L_def)
  have so9: "so = 12 + 9 * base"
    using al by (simp add: base_def so_def)
  obtain l where l: "L = 12 + 9 * l"
    using sk(3,4) by (metis dvdE le_add_diff_inverse)
  have bl: "base < l" using soL so9 l by simp
  obtain bq where bq: "bsz = 9 * bq" using sk(2) by (auto elim: dvdE)
  have bq0: "0 < bq" using R(2,3) bq by (simp add: bsz_def [symmetric])
  define m where "m = min bq (l - base)"
  have "L - so = 9 * (l - base)" by (simp add: so9 l right_diff_distrib')
  then have nm: "n = 9 * m" by (simp add: n bq m_def min_def)
  have m0: "0 < m" using bq0 bl by (simp add: m_def)
  let ?s' = "if unat (query_index ?s1) < unat (stream_off s) + unat (buf_size ?s1)
             then ?s1\<lparr>stream_off := query_index ?s1\<rparr> else ?s1"
  let ?b' = "take n (drop (unat (stream_off s)) file) @ drop n (start_buf r)"
  let ?r' = "r\<lparr>start_buf := ?b', data_in_buf := of_nat n, buf := 9\<rparr>"
  have uadd: "unat (stream_off s + ucast (buf_size s)) = so + bsz"
    using nowrap by (simp add: unat_add_lem [THEN iffD1] ucast_buf_unat so_def bsz_def)
  have so': "unat (stream_off ?s') = (if Q < so + bsz then Q else so + bsz)"
    using uadd by (simp add: so_def [symmetric] bsz_def [symmetric] Q_def [symmetric])
  have cs: "buf_size ?s' = buf_size s0" "end_of_file ?s' = end_of_file s0"
       "query_index ?s' = query_index s0" "\<not> query_block ?s'"
    using c by simp_all
  have Qal: "12 \<le> Q \<and> 9 dvd (Q - 12)" if "Q < so + bsz"
    using sk(7) that ltn(2) kb by auto
  have a12: "12 \<le> unat (stream_off ?s')"
    unfolding so' using Qal so9 by auto
  have a9: "9 dvd (unat (stream_off ?s') - 12)"
    unfolding so' using Qal so9 bq by auto
  have up: "unat (stream_off ?s') \<le> so + bsz"
    unfolding so' by auto
  have qe: "Q \<le> E \<longrightarrow> unat (stream_off ?s') \<le> Q"
    unfolding so' by auto
  have minT: "min (unat (stream_off ?s')) L = so + n"
  proof (cases "Q < so + bsz")
    case True
    have "min Q L = so + min bsz (L - so)" using True ltn unfolding L_def by arith
    then show ?thesis using True unfolding so' n by simp
  next
    case False
    have "min (so + bsz) L = so + min bsz (L - so)" using soL by arith
    then show ?thesis using False unfolding so' n by simp
  qed
  have T: "(min (unat (stream_off ?s')) L - 12) div 9 = base + m"
    unfolding minT by (simp add: so9 nm)
  have nlen: "so + n \<le> length file"
    using sk(6) soL unfolding n L_def by arith
  have tk: "take n ?b' = take n (drop so file)"
    using nlen by (simp add: so_def)
  have n9: "0 + 9 \<le> n" using m0 nm by simp
  have pu: "parse_update ?b' 0 = file_update file base"
    using parse_update_buffer [OF tk n9] by (simp add: file_update_def so9)
  have rok: "reader_ok file ?r' (Suc base, base + m)"
  proof (cases "m = 1")
    case True
    then show ?thesis using R(4) nm by (simp add: reader_ok_def exhausted_nat)
  next
    case False
    then have m1: "1 < m" using m0 by simp
    have "take (9 * m) ?b' = take (9 * m) (drop (12 + 9 * base) file)"
      using tk by (simp only: nm so9)
    then show ?thesis
      using m1 R(4) nm
      by (auto simp: reader_ok_def intro!: exI [of _ base])
  qed
  have ge: "get_edge_fetched file [] ?s1 (stream_off s) r
              = Some (Inr (file_update file base), ?s', ?r')"
    using R(1) pu by simp
  show ?thesis
    apply (rule exI [of _ ?s'], rule exI [of _ ?r'], rule exI [of _ m])
    apply (intro conjI)
    subgoal using ge by (simp only: base_def so_def)
    subgoal using cs(1) .
    subgoal using cs(2) .
    subgoal using cs(3) .
    subgoal using cs(4) .
    subgoal using a12 .
    subgoal using a9 .
    subgoal using up by (simp only: so_def bsz_def c)
    subgoal using qe by (simp only: Q_def E_def c)
    subgoal using m0 .
    subgoal using T by (simp only: Ls base_def so_def)
    subgoal using rok by (simp only: base_def so_def)
    done
qed

lemma reader_fetched_zero:
  assumes ok: "stream_ok file k s0" and k: "0 < k"
      and c: "buf_size s = buf_size s0" "end_of_file s = end_of_file s0"
             "query_index s = query_index s0" "\<not> query_block s"
      and al: "12 \<le> unat (stream_off s)" "9 dvd (unat (stream_off s) - 12)"
      and ge: "stream_limit s0 \<le> unat (stream_off s)"
      and bd: "unat (stream_off s) + unat (buf_size s0)
                 \<le> unat (end_of_file s0) + k * unat (buf_size s0)"
  shows "\<exists>s'. get_edge_fetched file []
               (s\<lparr>stream_off := stream_off s + ucast (buf_size s)\<rparr>) (stream_off s) r
             = Some (Inr breakpoint_update, s', r\<lparr>data_in_buf := 0\<rparr>)
           \<and> buf_size s' = buf_size s0 \<and> end_of_file s' = end_of_file s0
           \<and> query_index s' = query_index s0 \<and> \<not> query_block s'
           \<and> 12 \<le> unat (stream_off s') \<and> 9 dvd (unat (stream_off s') - 12)
           \<and> unat (stream_off s') \<le> unat (stream_off s) + unat (buf_size s0)
           \<and> (unat (query_index s0) \<le> unat (end_of_file s0)
                \<longrightarrow> unat (stream_off s') \<le> unat (query_index s0))
           \<and> stream_limit s0 \<le> unat (stream_off s')"
proof -
  define so where "so = unat (stream_off s)"
  define bsz where "bsz = unat (buf_size s)"
  define Q where "Q = unat (query_index s)"
  define E where "E = unat (end_of_file s)"
  define L where "L = min Q E"
  let ?s1 = "s\<lparr>stream_off := stream_off s + ucast (buf_size s)\<rparr>"
  have Ls: "stream_limit s0 = L" by (simp add: stream_limit_def L_def Q_def E_def c)
  from ok have sk: "buf_size s \<noteq> 0" "9 dvd bsz" "12 \<le> L" "9 dvd (L - 12)"
      "E + k * bsz < 2 ^ 64" "E \<le> length file"
      "E + k * bsz \<le> Q \<or> 12 \<le> Q \<and> 9 dvd (Q - 12)"
    by (simp_all add: stream_ok_def Ls c bsz_def E_def Q_def)
  have Lso: "L \<le> so" using ge by (simp add: Ls so_def)
  have bd': "so + bsz \<le> E + k * bsz" using bd by (simp add: so_def bsz_def E_def c)
  have b0: "0 < bsz" using sk(1) by (simp add: bsz_def unat_gt_0)
  have nw0: "so + bsz < 2 ^ 64" using sk(5) bd' by linarith
  have nowrap: "unat (stream_off s) + unat (buf_size s) < 2 ^ 64"
    using nw0 unfolding so_def bsz_def by simp
  have uadd: "unat (stream_off s + ucast (buf_size s)) = so + bsz"
    using nowrap by (simp add: unat_add_lem [THEN iffD1] ucast_buf_unat so_def bsz_def)
  have z: "stream_off s \<ge> query_index ?s1 \<or> stream_off s \<ge> end_of_file ?s1"
    using Lso by (auto simp: word_le_nat_alt L_def so_def Q_def E_def min_def split: if_splits)
  let ?s' = "if stream_off s \<ge> query_index ?s1 then ?s1\<lparr>stream_off := query_index ?s1\<rparr> else ?s1"
  have so': "unat (stream_off ?s') = (if Q \<le> so then Q else so + bsz)"
    using uadd by (simp add: word_le_nat_alt so_def [symmetric] Q_def [symmetric])
  have cs: "buf_size ?s' = buf_size s0" "end_of_file ?s' = end_of_file s0"
       "query_index ?s' = query_index s0" "\<not> query_block ?s'"
    using c by simp_all
  obtain bq where bq: "bsz = 9 * bq" using sk(2) by (auto elim: dvdE)
  obtain b where so9: "so = 12 + 9 * b"
    using al by (metis dvdE le_add_diff_inverse so_def)
  have Qal: "12 \<le> Q \<and> 9 dvd (Q - 12)" if "Q \<le> so"
    using sk(7) that bd' b0 by auto
  have a12: "12 \<le> unat (stream_off ?s')"
    unfolding so' using Qal so9 by auto
  have a9: "9 dvd (unat (stream_off ?s') - 12)"
    unfolding so' using Qal so9 bq by auto
  have up: "unat (stream_off ?s') \<le> so + bsz"
    unfolding so' by auto
  have qe: "Q \<le> E \<longrightarrow> unat (stream_off ?s') \<le> Q"
    unfolding so' using Lso by (auto simp: L_def)
  have lim: "L \<le> unat (stream_off ?s')"
    unfolding so' using Lso by (auto simp: L_def)
  show ?thesis
    apply (rule exI [of _ ?s'])
    apply (intro conjI)
    subgoal by (rule get_edge_fetched_zero [OF z])
    subgoal using cs(1) .
    subgoal using cs(2) .
    subgoal using cs(3) .
    subgoal using cs(4) .
    subgoal using a12 .
    subgoal using a9 .
    subgoal using up by (simp only: so_def bsz_def c)
    subgoal using qe by (simp only: Q_def E_def c)
    subgoal using lim by (simp only: Ls)
    done
qed

lemma updates_of_snoc:
  "updates_of (log @ [(i, u)]) = (if u = breakpoint_update then updates_of log
                                   else updates_of log @ [(i, u)])"
  by (simp add: updates_of_def)

lemma sorted_snoc_filter:
  assumes "sorted_wrt (<) (map snd (filter (\<lambda>p. fst p = j) D))"
      and "\<forall>p\<in>set D. fst p = i \<longrightarrow> snd p < n"
  shows "sorted_wrt (<) (map snd (filter (\<lambda>p. fst p = j) (D @ [(i, n)])))"
  using assms by (auto simp: sorted_wrt_append)

lemma mt_invD:
  assumes "mt_inv file s0 st D ps"
  shows "buf_size (strm st) = buf_size s0" and "end_of_file (strm st) = end_of_file s0"
    and "query_index (strm st) = query_index s0" and "\<not> query_block (strm st)"
    and "12 \<le> unat (stream_off (strm st))" and "9 dvd (unat (stream_off (strm st)) - 12)"
    and "fetching st \<subseteq> {0..<length ps}"
    and "unat (stream_off (strm st)) + unat (buf_size s0) * card (fetching st)
          \<le> stream_limit s0 + unat (buf_size s0) * length ps"
    and "unat (query_index s0) \<le> unat (end_of_file s0)
          \<longrightarrow> unat (stream_off (strm st))
                \<le> unat (query_index s0) + unat (buf_size s0) * card (fetching st)"
    and "length ps = length (rdrs st)"
    and "\<forall>i<length ps. reader_ok file (rdrs st ! i) (ps ! i)
            \<and> snd (ps ! i) \<le> (min (unat (stream_off (strm st))) (stream_limit s0) - 12) div 9
            \<and> (i \<in> fetching st \<longrightarrow> fst (ps ! i) = snd (ps ! i))
            \<and> ((i, breakpoint_update) \<in> set (delivered st) \<longrightarrow>
                  fst (ps ! i) = snd (ps ! i) \<and> i \<notin> fetching st
                  \<and> stream_limit s0 \<le> unat (stream_off (strm st)))"
    and "updates_of (delivered st) = map (\<lambda>p. (fst p, file_update file (snd p))) D"
    and "\<forall>p\<in>set D. fst p < length ps \<and> snd p < fst (ps ! fst p)"
    and "\<forall>i. sorted_wrt (<) (map snd (filter (\<lambda>p. fst p = i) D))"
    and "mset (map snd D) + (\<Sum>p\<leftarrow>ps. mset [fst p..<snd p])
         = mset [0..<(min (unat (stream_off (strm st))) (stream_limit s0) - 12) div 9]"
  using assms unfolding mt_inv_def by blast+

text \<open>A reader delivers the next record of its block.\<close>

lemma mt_step_buffered:
  assumes ok: "stream_ok file k s0" and inv: "mt_inv file s0 st D ps"
      and i: "i < length (rdrs st)" and lt: "fst (ps ! i) < snd (ps ! i)"
  shows "\<exists>st' D' ps'. reader_step file i st = Some (Inr st') \<and> mt_inv file s0 st' D' ps'
           \<and> length (rdrs st') = length (rdrs st)"
proof -
  define lo where "lo = fst (ps ! i)"
  define hi where "hi = snd (ps ! i)"
  define r where "r = rdrs st ! i"
  define T where "T = (min (unat (stream_off (strm st))) (stream_limit s0) - 12) div 9"
  have psi: "ps ! i = (lo, hi)" by (simp add: lo_def hi_def)
  have lh: "lo < hi" using lt by (simp add: lo_def hi_def)
  note I = mt_invD [OF inv]
  note len = I(10) and up = I(12) and dl = I(13) and so = I(14)
  have rd: "\<forall>j<length ps. reader_ok file (rdrs st ! j) (ps ! j) \<and> snd (ps ! j) \<le> T
            \<and> (j \<in> fetching st \<longrightarrow> fst (ps ! j) = snd (ps ! j))
            \<and> ((j, breakpoint_update) \<in> set (delivered st) \<longrightarrow>
                  fst (ps ! j) = snd (ps ! j) \<and> j \<notin> fetching st
                  \<and> stream_limit s0 \<le> unat (stream_off (strm st)))"
    using I(11) unfolding T_def .
  have ms: "mset (map snd D) + (\<Sum>p\<leftarrow>ps. mset [fst p..<snd p]) = mset [0..<T]"
    using I(15) unfolding T_def .
  have ips: "i < length ps" using i len by simp
  have rok: "reader_ok file r (lo, hi)" and hiT: "hi \<le> T"
    and nfl: "(i, breakpoint_update) \<notin> set (delivered st)" and nf: "i \<notin> fetching st"
    using rd [rule_format, OF ips] lh unfolding psi r_def [symmetric] by auto
  note B = reader_ok_buffered [OF rok lh]
  have TL: "T \<le> (stream_limit s0 - 12) div 9"
    unfolding T_def by (intro div_le_mono diff_le_mono) simp
  have fu: "file_update file lo \<noteq> breakpoint_update"
    using ok lh hiT TL by (simp add: stream_ok_def)
  have F: "fetching st - {i} = fetching st" using nf by simp
  let ?r' = "r\<lparr>buf := buf r + 9\<rparr>"
  let ?st' = "\<lparr> delivered = delivered st @ [(i, file_update file lo)], strm = strm st,
                rdrs = (rdrs st)[i := ?r'], fetching = fetching st \<rparr>"
  let ?D' = "D @ [(i, lo)]"
  let ?ps' = "ps[i := (Suc lo, hi)]"
  have step: "reader_step file i st = Some (Inr ?st')"
    using i B(1,2) nf
    by (simp add: reader_step_def returned_def get_edge_buffered r_def [symmetric] F)
  have c11: "\<forall>j<length ?ps'. reader_ok file (rdrs ?st' ! j) (?ps' ! j) \<and> snd (?ps' ! j) \<le> T
            \<and> (j \<in> fetching ?st' \<longrightarrow> fst (?ps' ! j) = snd (?ps' ! j))
            \<and> ((j, breakpoint_update) \<in> set (delivered ?st') \<longrightarrow>
                  fst (?ps' ! j) = snd (?ps' ! j) \<and> j \<notin> fetching ?st'
                  \<and> stream_limit s0 \<le> unat (stream_off (strm ?st')))"
  proof (intro allI impI)
    fix j assume j: "j < length ?ps'"
    show "reader_ok file (rdrs ?st' ! j) (?ps' ! j) \<and> snd (?ps' ! j) \<le> T
            \<and> (j \<in> fetching ?st' \<longrightarrow> fst (?ps' ! j) = snd (?ps' ! j))
            \<and> ((j, breakpoint_update) \<in> set (delivered ?st') \<longrightarrow>
                  fst (?ps' ! j) = snd (?ps' ! j) \<and> j \<notin> fetching ?st'
                  \<and> stream_limit s0 \<le> unat (stream_off (strm ?st')))"
    proof (cases "j = i")
      case True
      then show ?thesis using B(3) hiT nfl nf fu i ips by simp
    next
      case False
      then show ?thesis using rd j by simp
    qed
  qed
  have c12: "updates_of (delivered ?st') = map (\<lambda>p. (fst p, file_update file (snd p))) ?D'"
    using up fu by (simp add: updates_of_snoc)
  have old: "\<forall>p\<in>set D. fst p = i \<longrightarrow> snd p < lo"
    using dl by (auto simp: lo_def)
  have c13: "\<forall>p\<in>set ?D'. fst p < length ?ps' \<and> snd p < fst (?ps' ! fst p)"
  proof
    fix p assume "p \<in> set ?D'"
    then consider "p \<in> set D" | "p = (i, lo)" by auto
    then show "fst p < length ?ps' \<and> snd p < fst (?ps' ! fst p)"
    proof cases
      case 1
      then show ?thesis using dl old ips by (cases "fst p = i") (auto simp: less_SucI)
    next
      case 2
      then show ?thesis using ips by simp
    qed
  qed
  have c14: "\<forall>j. sorted_wrt (<) (map snd (filter (\<lambda>p. fst p = j) ?D'))"
    using so old by (intro allI sorted_snoc_filter) auto
  define S where "S = (\<Sum>p\<leftarrow>ps. mset [fst p..<snd p])"
  define S' where "S' = (\<Sum>p\<leftarrow>?ps'. mset [fst p..<snd p])"
  define X where "X = mset [Suc lo..<hi]"
  have "S' + mset [lo..<hi] = S + X"
    using sum_list_mset_update [OF ips, of "\<lambda>p. mset [fst p..<snd p]" "(Suc lo, hi)"]
    unfolding S_def S'_def X_def psi by (simp only: fst_conv snd_conv)
  then have "S' + add_mset lo X = S + X"
    unfolding X_def by (simp only: mset_upt_split [OF lh])
  then have e: "add_mset lo S' = S" by simp
  have "mset (map snd ?D') + S' = mset (map snd D) + add_mset lo S'" by simp
  also have "\<dots> = mset [0..<T]" unfolding e using ms unfolding S_def .
  finally have c15: "mset (map snd ?D') + (\<Sum>p\<leftarrow>?ps'. mset [fst p..<snd p]) = mset [0..<T]"
    unfolding S'_def .
  have "mt_inv file s0 ?st' ?D' ?ps'"
    unfolding mt_inv_def
    apply (intro conjI)
    subgoal using I(1) by simp
    subgoal using I(2) by simp
    subgoal using I(3) by simp
    subgoal using I(4) by simp
    subgoal using I(5) by simp
    subgoal using I(6) by simp
    subgoal using I(7) by simp
    subgoal using I(8) by simp
    subgoal using I(9) by simp
    subgoal using len by simp
    subgoal using c11 by (simp add: T_def)
    subgoal using c12 .
    subgoal using c13 .
    subgoal using c14 .
    subgoal using c15 unfolding T_def by (simp only: mt_state.simps)
    done
  then show ?thesis using step by (intro exI [of _ ?st'] exI [of _ ?D'] exI [of _ ?ps']) simp
qed

text \<open>A reader at the end of its block finds a breakpoint condition.\<close>

lemma mt_step_breakpoint:
  assumes ok: "stream_ok file k s0" and inv: "mt_inv file s0 st D ps"
      and i: "i < length (rdrs st)" and eq: "fst (ps ! i) = snd (ps ! i)"
      and nf: "i \<notin> fetching st"
      and bp: "breakpoint_condition (strm st)"
  shows "\<exists>st' D' ps'. reader_step file i st = Some (Inr st') \<and> mt_inv file s0 st' D' ps'
           \<and> length (rdrs st') = length (rdrs st)"
proof -
  define r where "r = rdrs st ! i"
  define T where "T = (min (unat (stream_off (strm st))) (stream_limit s0) - 12) div 9"
  note I = mt_invD [OF inv]
  note len = I(10)
  have rd: "\<forall>j<length ps. reader_ok file (rdrs st ! j) (ps ! j) \<and> snd (ps ! j) \<le> T
            \<and> (j \<in> fetching st \<longrightarrow> fst (ps ! j) = snd (ps ! j))
            \<and> ((j, breakpoint_update) \<in> set (delivered st) \<longrightarrow>
                  fst (ps ! j) = snd (ps ! j) \<and> j \<notin> fetching st
                  \<and> stream_limit s0 \<le> unat (stream_off (strm st)))"
    using I(11) unfolding T_def .
  have ips: "i < length ps" using i len by simp
  have rok: "reader_ok file r (ps ! i)" and hiT: "snd (ps ! i) \<le> T"
    using rd [rule_format, OF ips] unfolding r_def [symmetric] by auto
  have ex: "exhausted r" using rok eq by (simp add: reader_ok_def)
  have Lso: "stream_limit s0 \<le> unat (stream_off (strm st))"
    using bp I(1-4)
    by (auto simp: breakpoint_condition_def stream_limit_def word_le_nat_alt)
  have F: "fetching st - {i} = fetching st" using nf by simp
  let ?r' = "r\<lparr>data_in_buf := 0\<rparr>"
  let ?st' = "\<lparr> delivered = delivered st @ [(i, breakpoint_update)], strm = strm st,
                rdrs = (rdrs st)[i := ?r'], fetching = fetching st \<rparr>"
  have step: "reader_step file i st = Some (Inr ?st')"
    using i nf bp
    by (simp add: reader_step_def returned_def get_edge_sentinel [OF bp ex] r_def [symmetric] F)
  have rok': "reader_ok file ?r' (ps ! i)"
    using rok eq by (simp add: reader_ok_def exhausted_nat)
  have c11: "\<forall>j<length ps. reader_ok file (rdrs ?st' ! j) (ps ! j) \<and> snd (ps ! j) \<le> T
            \<and> (j \<in> fetching ?st' \<longrightarrow> fst (ps ! j) = snd (ps ! j))
            \<and> ((j, breakpoint_update) \<in> set (delivered ?st') \<longrightarrow>
                  fst (ps ! j) = snd (ps ! j) \<and> j \<notin> fetching ?st'
                  \<and> stream_limit s0 \<le> unat (stream_off (strm ?st')))"
  proof (intro allI impI)
    fix j assume j: "j < length ps"
    show "reader_ok file (rdrs ?st' ! j) (ps ! j) \<and> snd (ps ! j) \<le> T
            \<and> (j \<in> fetching ?st' \<longrightarrow> fst (ps ! j) = snd (ps ! j))
            \<and> ((j, breakpoint_update) \<in> set (delivered ?st') \<longrightarrow>
                  fst (ps ! j) = snd (ps ! j) \<and> j \<notin> fetching ?st'
                  \<and> stream_limit s0 \<le> unat (stream_off (strm ?st')))"
    proof (cases "j = i")
      case True
      then show ?thesis using rok' hiT eq Lso nf i by simp
    next
      case False
      then show ?thesis using rd j by simp
    qed
  qed
  have c12: "updates_of (delivered ?st') = map (\<lambda>p. (fst p, file_update file (snd p))) D"
    using I(12) by (simp add: updates_of_snoc)
  have "mt_inv file s0 ?st' D ps"
    unfolding mt_inv_def
    apply (intro conjI)
    subgoal using I(1) by simp
    subgoal using I(2) by simp
    subgoal using I(3) by simp
    subgoal using I(4) by simp
    subgoal using I(5) by simp
    subgoal using I(6) by simp
    subgoal using I(7) by simp
    subgoal using I(8) by simp
    subgoal using I(9) by simp
    subgoal using len by simp
    subgoal using c11 by (simp add: T_def)
    subgoal using c12 .
    subgoal using I(13) .
    subgoal using I(14) .
    subgoal using I(15) by (simp only: mt_state.simps)
    done
  then show ?thesis using step by (intro exI [of _ ?st'] exI [of _ D] exI [of _ ps]) simp
qed

text \<open>A reader at the end of its block passes the check of \<open>read_data\<close>.\<close>

lemma mt_step_check:
  assumes ok: "stream_ok file k s0" and inv: "mt_inv file s0 st D ps"
      and i: "i < length (rdrs st)" and eq: "fst (ps ! i) = snd (ps ! i)"
      and nf: "i \<notin> fetching st"
      and nbp: "\<not> breakpoint_condition (strm st)"
  shows "\<exists>st' D' ps'. reader_step file i st = Some (Inr st') \<and> mt_inv file s0 st' D' ps'
           \<and> length (rdrs st') = length (rdrs st)"
proof -
  define r where "r = rdrs st ! i"
  define so where "so = unat (stream_off (strm st))"
  define L where "L = stream_limit s0"
  define bsz where "bsz = unat (buf_size s0)"
  note I = mt_invD [OF inv]
  note len = I(10)
  have ips: "i < length ps" using i len by simp
  have rok: "reader_ok file r (ps ! i)"
    using I(11) [rule_format, OF ips] unfolding r_def [symmetric] by auto
  have ex: "exhausted r" using rok eq by (simp add: reader_ok_def)
  have soL: "so < L"
    using nbp I(1-4)
    by (auto simp: breakpoint_condition_def stream_limit_def word_le_nat_alt so_def L_def not_le)
  let ?st' = "st\<lparr>fetching := insert i (fetching st)\<rparr>"
  have step: "reader_step file i st = Some (Inr ?st')"
    using i nf nbp ex by (simp add: reader_step_def r_def [symmetric])
  have fin: "finite (fetching st)" using I(7) by (rule finite_subset) simp
  have sub: "insert i (fetching st) \<subseteq> {0..<length ps}" using I(7) ips by simp
  have card: "card (insert i (fetching st)) = Suc (card (fetching st))"
    using fin nf by simp
  have "card (insert i (fetching st)) \<le> card {0..<length ps}"
    using sub by (intro card_mono) simp_all
  then have ck: "Suc (card (fetching st)) \<le> length ps" using card by simp
  have "bsz * Suc (card (fetching st)) \<le> bsz * length ps"
    using ck by (rule mult_le_mono2)
  then have c8: "so + bsz * card (insert i (fetching st)) \<le> L + bsz * length ps"
    using soL unfolding card by linarith
  have c9: "unat (query_index s0) \<le> unat (end_of_file s0)
          \<longrightarrow> so \<le> unat (query_index s0) + bsz * card (insert i (fetching st))"
    using soL by (auto simp: L_def stream_limit_def)
  have noflag: "(j, breakpoint_update) \<notin> set (delivered st)" if "j < length ps" for j
    using I(11) [rule_format, OF that] soL by (auto simp: so_def L_def)
  have c11: "\<forall>j<length ps. reader_ok file (rdrs ?st' ! j) (ps ! j)
            \<and> snd (ps ! j) \<le> (min (unat (stream_off (strm ?st'))) (stream_limit s0) - 12) div 9
            \<and> (j \<in> fetching ?st' \<longrightarrow> fst (ps ! j) = snd (ps ! j))
            \<and> ((j, breakpoint_update) \<in> set (delivered ?st') \<longrightarrow>
                  fst (ps ! j) = snd (ps ! j) \<and> j \<notin> fetching ?st'
                  \<and> stream_limit s0 \<le> unat (stream_off (strm ?st')))"
  proof (intro allI impI)
    fix j assume j: "j < length ps"
    show "reader_ok file (rdrs ?st' ! j) (ps ! j)
            \<and> snd (ps ! j) \<le> (min (unat (stream_off (strm ?st'))) (stream_limit s0) - 12) div 9
            \<and> (j \<in> fetching ?st' \<longrightarrow> fst (ps ! j) = snd (ps ! j))
            \<and> ((j, breakpoint_update) \<in> set (delivered ?st') \<longrightarrow>
                  fst (ps ! j) = snd (ps ! j) \<and> j \<notin> fetching ?st'
                  \<and> stream_limit s0 \<le> unat (stream_off (strm ?st')))"
      using I(11) [rule_format, OF j] noflag [OF j] eq by auto
  qed
  have "mt_inv file s0 ?st' D ps"
    unfolding mt_inv_def
    apply (intro conjI)
    subgoal using I(1) by simp
    subgoal using I(2) by simp
    subgoal using I(3) by simp
    subgoal using I(4) by simp
    subgoal using I(5) by simp
    subgoal using I(6) by simp
    subgoal using sub by simp
    subgoal using c8 by (simp add: so_def L_def bsz_def)
    subgoal using c9 by (simp add: so_def bsz_def)
    subgoal using len by simp
    subgoal using c11 .
    subgoal using I(12) by simp
    subgoal using I(13) .
    subgoal using I(14) .
    subgoal using I(15) by simp
    done
  then show ?thesis using step by (intro exI [of _ ?st'] exI [of _ D] exI [of _ ps]) simp
qed

lemma fetching_card:
  assumes "fetching st \<subseteq> {0..<n}" "i \<in> fetching st"
  shows "card (fetching st - {i}) = card (fetching st) - 1" and "0 < card (fetching st)"
proof -
  have fin: "finite (fetching st)" using assms(1) by (rule finite_subset) simp
  show "card (fetching st - {i}) = card (fetching st) - 1"
    using fin assms(2) by simp
  show "0 < card (fetching st)"
    using fin assms(2) by (auto simp: card_gt_0_iff)
qed

lemma bound_after_fetch:
  assumes "so + bsz * c \<le> B" "so' \<le> so + bsz" "0 < (c::nat)"
  shows "so' + bsz * (c - 1) \<le> B"
proof -
  have "bsz * c = bsz + bsz * (c - 1)"
    using assms(3) by (metis Suc_diff_1 mult_Suc_right)
  then show ?thesis using assms(1,2) by linarith
qed

text \<open>A reader that has passed the check fetches a block.\<close>

lemma mt_step_fetch_block:
  assumes ok: "stream_ok file k s0" and k: "0 < k" and inv: "mt_inv file s0 st D ps"
      and i: "i < length (rdrs st)" and f: "i \<in> fetching st"
      and lt: "unat (stream_off (strm st)) < stream_limit s0"
  shows "\<exists>st' D' ps'. reader_step file i st = Some (Inr st') \<and> mt_inv file s0 st' D' ps'
           \<and> length (rdrs st') = length (rdrs st)"
proof -
  define r where "r = rdrs st ! i"
  define so where "so = unat (stream_off (strm st))"
  define L where "L = stream_limit s0"
  define bsz where "bsz = unat (buf_size s0)"
  define base where "base = (so - 12) div 9"
  define T where "T = (min so L - 12) div 9"
  note I = mt_invD [OF inv]
  note len = I(10) and up = I(12) and dl = I(13) and srt = I(14)
  have rd: "\<forall>j<length ps. reader_ok file (rdrs st ! j) (ps ! j) \<and> snd (ps ! j) \<le> T
            \<and> (j \<in> fetching st \<longrightarrow> fst (ps ! j) = snd (ps ! j))
            \<and> ((j, breakpoint_update) \<in> set (delivered st) \<longrightarrow>
                  fst (ps ! j) = snd (ps ! j) \<and> j \<notin> fetching st \<and> L \<le> so)"
    using I(11) unfolding T_def so_def L_def .
  have ms: "mset (map snd D) + (\<Sum>p\<leftarrow>ps. mset [fst p..<snd p]) = mset [0..<T]"
    using I(15) unfolding T_def so_def L_def .
  have ips: "i < length ps" using i len by simp
  have hiT: "snd (ps ! i) \<le> T" and eq: "fst (ps ! i) = snd (ps ! i)"
    using rd [rule_format, OF ips] f by auto
  have soL: "so < L" using lt by (simp add: so_def L_def)
  from reader_fetched_block [OF ok k I(1-4) I(5,6) lt, of r]
  obtain s' r' m where R:
    "get_edge_fetched file []
       ((strm st)\<lparr>stream_off := stream_off (strm st) + ucast (buf_size (strm st))\<rparr>)
       (stream_off (strm st)) r = Some (Inr (file_update file base), s', r')"
    "buf_size s' = buf_size s0" "end_of_file s' = end_of_file s0"
    "query_index s' = query_index s0" "\<not> query_block s'"
    "12 \<le> unat (stream_off s')" "9 dvd (unat (stream_off s') - 12)"
    "unat (stream_off s') \<le> so + bsz"
    "unat (query_index s0) \<le> unat (end_of_file s0) \<longrightarrow> unat (stream_off s') \<le> unat (query_index s0)"
    "0 < m" "(min (unat (stream_off s')) L - 12) div 9 = base + m"
    "reader_ok file r' (Suc base, base + m)"
    unfolding base_def so_def L_def bsz_def by blast
  have Tb: "T = base" using soL by (simp add: T_def base_def)
  have noflag: "(j, breakpoint_update) \<notin> set (delivered st)" if "j < length ps" for j
    using rd [rule_format, OF that] soL by auto
  have "base + m \<le> (L - 12) div 9"
    unfolding R(11) [symmetric] by (intro div_le_mono diff_le_mono) simp
  then have fu: "file_update file base \<noteq> breakpoint_update"
    using ok R(10) by (simp add: stream_ok_def L_def)
  let ?st' = "\<lparr> delivered = delivered st @ [(i, file_update file base)], strm = s',
                rdrs = (rdrs st)[i := r'], fetching = fetching st - {i} \<rparr>"
  let ?D' = "D @ [(i, base)]"
  let ?ps' = "ps[i := (Suc base, base + m)]"
  have step: "reader_step file i st = Some (Inr ?st')"
    using i f R(1) by (simp add: reader_step_def returned_def r_def [symmetric])
  note C = fetching_card [OF I(7) f]
  have c7: "fetching st - {i} \<subseteq> {0..<length ps}" using I(7) by auto
  have c8: "unat (stream_off s') + bsz * card (fetching st - {i}) \<le> L + bsz * length ps"
    unfolding C(1)
    using bound_after_fetch [OF _ R(8) C(2)] I(8) unfolding so_def L_def bsz_def .
  have c9: "unat (query_index s0) \<le> unat (end_of_file s0)
          \<longrightarrow> unat (stream_off s') \<le> unat (query_index s0) + bsz * card (fetching st - {i})"
    using R(9) by auto
  have c11: "\<forall>j<length ?ps'. reader_ok file (rdrs ?st' ! j) (?ps' ! j) \<and> snd (?ps' ! j) \<le> base + m
            \<and> (j \<in> fetching ?st' \<longrightarrow> fst (?ps' ! j) = snd (?ps' ! j))
            \<and> ((j, breakpoint_update) \<in> set (delivered ?st') \<longrightarrow>
                  fst (?ps' ! j) = snd (?ps' ! j) \<and> j \<notin> fetching ?st'
                  \<and> L \<le> unat (stream_off (strm ?st')))"
  proof (intro allI impI)
    fix j assume j: "j < length ?ps'"
    then have j': "j < length ps" by simp
    show "reader_ok file (rdrs ?st' ! j) (?ps' ! j) \<and> snd (?ps' ! j) \<le> base + m
            \<and> (j \<in> fetching ?st' \<longrightarrow> fst (?ps' ! j) = snd (?ps' ! j))
            \<and> ((j, breakpoint_update) \<in> set (delivered ?st') \<longrightarrow>
                  fst (?ps' ! j) = snd (?ps' ! j) \<and> j \<notin> fetching ?st'
                  \<and> L \<le> unat (stream_off (strm ?st')))"
    proof (cases "j = i")
      case True
      then show ?thesis using R(12) noflag [OF ips] fu i ips by simp
    next
      case False
      then show ?thesis using rd [rule_format, OF j'] noflag [OF j'] Tb by simp
    qed
  qed
  have c12: "updates_of (delivered ?st') = map (\<lambda>p. (fst p, file_update file (snd p))) ?D'"
    using up fu by (simp add: updates_of_snoc)
  have old: "\<forall>p\<in>set D. fst p = i \<longrightarrow> snd p < base"
  proof (intro ballI impI)
    fix p assume p: "p \<in> set D" "fst p = i"
    then have "snd p < fst (ps ! i)" using dl by auto
    then show "snd p < base" using eq hiT Tb by simp
  qed
  have c13: "\<forall>p\<in>set ?D'. fst p < length ?ps' \<and> snd p < fst (?ps' ! fst p)"
  proof
    fix p assume "p \<in> set ?D'"
    then consider "p \<in> set D" | "p = (i, base)" by auto
    then show "fst p < length ?ps' \<and> snd p < fst (?ps' ! fst p)"
    proof cases
      case 1
      then show ?thesis using dl old ips by (cases "fst p = i") (auto simp: less_SucI)
    next
      case 2
      then show ?thesis using ips by simp
    qed
  qed
  have c14: "\<forall>j. sorted_wrt (<) (map snd (filter (\<lambda>p. fst p = j) ?D'))"
    using srt old by (intro allI sorted_snoc_filter) auto
  define S where "S = (\<Sum>p\<leftarrow>ps. mset [fst p..<snd p])"
  define S' where "S' = (\<Sum>p\<leftarrow>?ps'. mset [fst p..<snd p])"
  define X where "X = mset [Suc base..<base + m]"
  have emp: "mset [fst (ps ! i)..<snd (ps ! i)] = {#}" using eq by simp
  have "S' + mset [fst (ps ! i)..<snd (ps ! i)] = S + X"
    using sum_list_mset_update [OF ips, of "\<lambda>p. mset [fst p..<snd p]" "(Suc base, base + m)"]
    unfolding S_def S'_def X_def by (simp only: fst_conv snd_conv)
  then have e: "S' = S + X" unfolding emp by simp
  have bm: "base < base + m" using R(10) by simp
  have "mset (map snd ?D') + S' = (mset (map snd D) + S) + add_mset base X"
    unfolding e by simp
  also have "\<dots> = mset [0..<base] + mset [base..<base + m]"
    using ms unfolding S_def [symmetric] Tb X_def by (simp only: mset_upt_split [OF bm])
  also have "\<dots> = mset [0..<base + m]"
    by (rule mset_upt_append) simp
  finally have c15: "mset (map snd ?D') + (\<Sum>p\<leftarrow>?ps'. mset [fst p..<snd p]) = mset [0..<base + m]"
    unfolding S'_def .
  have "mt_inv file s0 ?st' ?D' ?ps'"
    unfolding mt_inv_def
    apply (intro conjI)
    subgoal using R(2) by simp
    subgoal using R(3) by simp
    subgoal using R(4) by simp
    subgoal using R(5) by simp
    subgoal using R(6) by simp
    subgoal using R(7) by simp
    subgoal using c7 by simp
    subgoal using c8 by (simp add: L_def bsz_def)
    subgoal using c9 by (simp add: bsz_def)
    subgoal using len by simp
    subgoal using c11 R(11) by (simp add: L_def)
    subgoal using c12 .
    subgoal using c13 .
    subgoal using c14 .
    subgoal using c15 R(11) unfolding L_def by (simp only: mt_state.simps)
    done
  then show ?thesis using step by (intro exI [of _ ?st'] exI [of _ ?D'] exI [of _ ?ps']) simp
qed

text \<open>A reader that has passed the check fetches at or beyond the limit.\<close>

lemma mt_step_fetch_zero:
  assumes ok: "stream_ok file k s0" and k: "0 < k" and kl: "length ps \<le> k"
      and inv: "mt_inv file s0 st D ps"
      and i: "i < length (rdrs st)" and f: "i \<in> fetching st"
      and ge: "stream_limit s0 \<le> unat (stream_off (strm st))"
  shows "\<exists>st' D' ps'. reader_step file i st = Some (Inr st') \<and> mt_inv file s0 st' D' ps'
           \<and> length (rdrs st') = length (rdrs st)"
proof -
  define r where "r = rdrs st ! i"
  define so where "so = unat (stream_off (strm st))"
  define L where "L = stream_limit s0"
  define bsz where "bsz = unat (buf_size s0)"
  define T where "T = (min so L - 12) div 9"
  note I = mt_invD [OF inv]
  note len = I(10)
  have rd: "\<forall>j<length ps. reader_ok file (rdrs st ! j) (ps ! j) \<and> snd (ps ! j) \<le> T
            \<and> (j \<in> fetching st \<longrightarrow> fst (ps ! j) = snd (ps ! j))
            \<and> ((j, breakpoint_update) \<in> set (delivered st) \<longrightarrow>
                  fst (ps ! j) = snd (ps ! j) \<and> j \<notin> fetching st \<and> L \<le> so)"
    using I(11) unfolding T_def so_def L_def .
  have ips: "i < length ps" using i len by simp
  have rok: "reader_ok file r (ps ! i)" and eq: "fst (ps ! i) = snd (ps ! i)"
    using rd [rule_format, OF ips] f unfolding r_def [symmetric] by auto
  note C = fetching_card [OF I(7) f]
  have LE: "L \<le> unat (end_of_file s0)" by (simp add: L_def stream_limit_def)
  have "bsz \<le> bsz * card (fetching st)" using C(2) by simp
  moreover have "bsz * length ps \<le> k * bsz" using kl by (simp add: mult.commute)
  ultimately have bd: "so + bsz \<le> unat (end_of_file s0) + k * bsz"
    using I(8) LE unfolding so_def [symmetric] L_def [symmetric] bsz_def [symmetric] by linarith
  from reader_fetched_zero [OF ok k I(1-4) I(5,6) ge, of r] bd
  obtain s' where R:
    "get_edge_fetched file []
       ((strm st)\<lparr>stream_off := stream_off (strm st) + ucast (buf_size (strm st))\<rparr>)
       (stream_off (strm st)) r = Some (Inr breakpoint_update, s', r\<lparr>data_in_buf := 0\<rparr>)"
    "buf_size s' = buf_size s0" "end_of_file s' = end_of_file s0"
    "query_index s' = query_index s0" "\<not> query_block s'"
    "12 \<le> unat (stream_off s')" "9 dvd (unat (stream_off s') - 12)"
    "unat (stream_off s') \<le> so + bsz"
    "unat (query_index s0) \<le> unat (end_of_file s0) \<longrightarrow> unat (stream_off s') \<le> unat (query_index s0)"
    "L \<le> unat (stream_off s')"
    unfolding so_def L_def bsz_def by blast
  have Teq: "(min (unat (stream_off s')) L - 12) div 9 = T"
    using R(10) ge by (simp add: T_def so_def L_def min_def)
  let ?r' = "r\<lparr>data_in_buf := 0\<rparr>"
  let ?st' = "\<lparr> delivered = delivered st @ [(i, breakpoint_update)], strm = s',
                rdrs = (rdrs st)[i := ?r'], fetching = fetching st - {i} \<rparr>"
  have step: "reader_step file i st = Some (Inr ?st')"
    using i f R(1) by (simp add: reader_step_def returned_def r_def [symmetric])
  have rok': "reader_ok file ?r' (ps ! i)"
    using rok eq by (simp add: reader_ok_def exhausted_nat)
  have c7: "fetching st - {i} \<subseteq> {0..<length ps}" using I(7) by auto
  have c8: "unat (stream_off s') + bsz * card (fetching st - {i}) \<le> L + bsz * length ps"
    unfolding C(1)
    using bound_after_fetch [OF _ R(8) C(2)] I(8) unfolding so_def L_def bsz_def .
  have c9: "unat (query_index s0) \<le> unat (end_of_file s0)
          \<longrightarrow> unat (stream_off s') \<le> unat (query_index s0) + bsz * card (fetching st - {i})"
    using R(9) by auto
  have c11: "\<forall>j<length ps. reader_ok file (rdrs ?st' ! j) (ps ! j) \<and> snd (ps ! j) \<le> T
            \<and> (j \<in> fetching ?st' \<longrightarrow> fst (ps ! j) = snd (ps ! j))
            \<and> ((j, breakpoint_update) \<in> set (delivered ?st') \<longrightarrow>
                  fst (ps ! j) = snd (ps ! j) \<and> j \<notin> fetching ?st'
                  \<and> L \<le> unat (stream_off (strm ?st')))"
  proof (intro allI impI)
    fix j assume j: "j < length ps"
    show "reader_ok file (rdrs ?st' ! j) (ps ! j) \<and> snd (ps ! j) \<le> T
            \<and> (j \<in> fetching ?st' \<longrightarrow> fst (ps ! j) = snd (ps ! j))
            \<and> ((j, breakpoint_update) \<in> set (delivered ?st') \<longrightarrow>
                  fst (ps ! j) = snd (ps ! j) \<and> j \<notin> fetching ?st'
                  \<and> L \<le> unat (stream_off (strm ?st')))"
    proof (cases "j = i")
      case True
      then show ?thesis using rok' rd [rule_format, OF ips] eq R(10) i by simp
    next
      case False
      then show ?thesis using rd [rule_format, OF j] R(10) by simp
    qed
  qed
  have c12: "updates_of (delivered ?st') = map (\<lambda>p. (fst p, file_update file (snd p))) D"
    using I(12) by (simp add: updates_of_snoc)
  have c15: "mset (map snd D) + (\<Sum>p\<leftarrow>ps. mset [fst p..<snd p]) = mset [0..<T]"
    using I(15) unfolding T_def so_def L_def .
  have "mt_inv file s0 ?st' D ps"
    unfolding mt_inv_def
    apply (intro conjI)
    subgoal using R(2) by simp
    subgoal using R(3) by simp
    subgoal using R(4) by simp
    subgoal using R(5) by simp
    subgoal using R(6) by simp
    subgoal using R(7) by simp
    subgoal using c7 by simp
    subgoal using c8 by (simp add: L_def bsz_def)
    subgoal using c9 by (simp add: bsz_def)
    subgoal using len by simp
    subgoal using c11 Teq by (simp add: L_def)
    subgoal using c12 .
    subgoal using I(13) .
    subgoal using I(14) .
    subgoal using c15 Teq unfolding L_def by (simp only: mt_state.simps)
    done
  then show ?thesis using step by (intro exI [of _ ?st'] exI [of _ D] exI [of _ ps]) simp
qed

lemma mt_step_inv:
  assumes ok: "stream_ok file k s0" and kl: "length ps \<le> k"
      and inv: "mt_inv file s0 st D ps"
  shows "\<exists>st' D' ps'. reader_step file i st = Some (Inr st') \<and> mt_inv file s0 st' D' ps'
           \<and> length (rdrs st') = length (rdrs st) \<and> length ps' = length ps"
proof -
  have len: "length ps' = length ps"
    if a: "mt_inv file s0 st' D' ps'" and b: "length (rdrs st') = length (rdrs st)"
    for st' D' ps'
    using mt_invD(10) [OF inv] mt_invD(10) [OF a] b by simp
  have "\<exists>st' D' ps'. reader_step file i st = Some (Inr st') \<and> mt_inv file s0 st' D' ps'
           \<and> length (rdrs st') = length (rdrs st)"
  proof (cases "i < length (rdrs st)")
    case False
    then show ?thesis using inv by (auto simp: reader_step_def)
  next
    case i: True
    then have ips: "i < length ps" using mt_invD(10) [OF inv] by simp
    then have k: "0 < k" using kl by simp
    have le: "fst (ps ! i) \<le> snd (ps ! i)"
      using mt_invD(11) [OF inv, rule_format, OF ips] by (simp add: reader_ok_def)
    show ?thesis
    proof (cases "i \<in> fetching st")
      case True
      show ?thesis
      proof (cases "unat (stream_off (strm st)) < stream_limit s0")
        case lt: True
        show ?thesis by (rule mt_step_fetch_block [OF ok k inv i True lt])
      next
        case False
        then have "stream_limit s0 \<le> unat (stream_off (strm st))" by simp
        then show ?thesis by (rule mt_step_fetch_zero [OF ok k kl inv i True])
      qed
    next
      case nf: False
      show ?thesis
      proof (cases "fst (ps ! i) < snd (ps ! i)")
        case True
        then show ?thesis by (rule mt_step_buffered [OF ok inv i])
      next
        case False
        then have eq: "fst (ps ! i) = snd (ps ! i)" using le by simp
        show ?thesis
        proof (cases "breakpoint_condition (strm st)")
          case True
          then show ?thesis by (rule mt_step_breakpoint [OF ok inv i eq nf])
        next
          case False
          then show ?thesis by (rule mt_step_check [OF ok inv i eq nf])
        qed
      qed
    qed
  qed
  then show ?thesis using len by blast
qed

lemma run_inv:
  assumes ok: "stream_ok file k s0"
  shows "length ps \<le> k \<Longrightarrow> mt_inv file s0 st D ps \<Longrightarrow>
         \<exists>st' D' ps'. run file sched st = Some (Inr st') \<and> mt_inv file s0 st' D' ps'
           \<and> length (rdrs st') = length (rdrs st)"
proof (induction sched arbitrary: st D ps)
  case Nil
  then show ?case by auto
next
  case (Cons i sched)
  from mt_step_inv [OF ok Cons.prems, of i] obtain st1 D1 ps1 where
    s: "reader_step file i st = Some (Inr st1)" "mt_inv file s0 st1 D1 ps1"
       "length (rdrs st1) = length (rdrs st)" "length ps1 = length ps" by blast
  have "length ps1 \<le> k" using s(4) Cons.prems(1) by simp
  from Cons.IH [OF this s(2)] s(1,3) show ?case by simp
qed

lemma submset_upt:
  assumes "mset xs + A = mset [0..<n]"
  shows "distinct xs" and "set xs \<subseteq> {0..<n}"
proof -
  have sub: "mset xs \<subseteq># mset [0..<n]"
    using assms mset_subset_eq_add_left [of "mset xs" A] by simp
  have c1: "count (mset xs) a \<le> 1" for a
  proof -
    have "count (mset xs) a \<le> count (mset [0..<n]) a"
      using sub by (rule mset_subset_eq_count)
    also have "\<dots> \<le> 1"
      using distinct_upt [of 0 n] unfolding distinct_count_atmost_1 by simp
    finally show ?thesis .
  qed
  show "distinct xs"
    unfolding distinct_count_atmost_1
  proof (intro allI)
    fix a
    show "count (mset xs) a = (if a \<in> set xs then 1 else 0)"
    proof (cases "a \<in> set xs")
      case True
      then have "0 < count (mset xs) a" by (simp add: count_greater_zero_iff)
      with c1 [of a] True show ?thesis by arith
    next
      case False
      then show ?thesis by (simp add: count_mset_0_iff)
    qed
  qed
  show "set xs \<subseteq> {0..<n}"
    using set_mset_mono [OF sub] by simp
qed

lemma sum_list_empty_intervals:
  "\<forall>p\<in>set ps. fst p = snd p \<Longrightarrow> (\<Sum>p\<leftarrow>ps. mset [fst p..<snd p]) = {#}"
  by (induction ps) simp_all


lemma mt_inv_init:
  assumes ok: "stream_ok file k s0" and q: "\<not> query_block s0" and so: "stream_off s0 = 12"
      and fr: "fresh_readers rs"
  shows "mt_inv file s0 (mt_start s0 rs) [] (replicate (length rs) (0, 0))"
proof -
  have r: "reader_ok file (rs ! i) (0, 0)" if "i < length rs" for i
    using fr that by (simp add: fresh_readers_def list_all_length reader_ok_def exhausted_nat)
  have L: "12 \<le> stream_limit s0"
    using ok by (simp add: stream_ok_def)
  then have Q: "12 \<le> unat (query_index s0)" by (simp add: stream_limit_def)
  show ?thesis
    unfolding mt_inv_def mt_start_def
    apply (intro conjI)
    subgoal by simp
    subgoal by simp
    subgoal by simp
    subgoal using q by simp
    subgoal using so by simp
    subgoal using so by simp
    subgoal by simp
    subgoal using so L by simp
    subgoal using so Q by simp
    subgoal by simp
    subgoal using r by simp
    subgoal by (simp add: updates_of_def)
    subgoal by simp
    subgoal by simp
    subgoal
    proof -
      have "(\<Sum>p\<leftarrow>replicate (length rs) (0::nat, 0::nat). mset [fst p..<snd p]) = {#}"
        by (rule sum_list_empty_intervals) simp
      then show ?thesis using so by (simp del: map_replicate)
    qed
    done
qed

text \<open>What the invariant says at the end of a run.\<close>

lemma mt_inv_final:
  assumes inv: "mt_inv file s0 st D ps"
  shows "distinct (map snd D)"
    and "set (map snd D) \<subseteq> {0..<(stream_limit s0 - 12) div 9}"
    and "rdrs st \<noteq> [] \<Longrightarrow> \<forall>i<length (rdrs st). (i, breakpoint_update) \<in> set (delivered st) \<Longrightarrow>
           mset (map snd D) = mset [0..<(stream_limit s0 - 12) div 9]
           \<and> stream_limit s0 \<le> unat (stream_off (strm st))
           \<and> (unat (query_index s0) \<le> unat (end_of_file s0)
                \<longrightarrow> unat (stream_off (strm st)) = unat (query_index s0))"
proof -
  note I = mt_invD [OF inv]
  let ?T = "(min (unat (stream_off (strm st))) (stream_limit s0) - 12) div 9"
  have TL: "?T \<le> (stream_limit s0 - 12) div 9"
    by (intro div_le_mono diff_le_mono) simp
  from submset_upt [OF I(15)] TL
  show "distinct (map snd D)" and "set (map snd D) \<subseteq> {0..<(stream_limit s0 - 12) div 9}"
    by auto
  assume ne: "rdrs st \<noteq> []" and all: "\<forall>i<length (rdrs st). (i, breakpoint_update) \<in> set (delivered st)"
  have fl: "fst (ps ! i) = snd (ps ! i) \<and> i \<notin> fetching st
              \<and> stream_limit s0 \<le> unat (stream_off (strm st))"
    if "i < length ps" for i
    using I(11) [rule_format, OF that] all that I(10) by simp
  have "0 < length ps" using ne I(10) by simp
  from fl [OF this] have lim: "stream_limit s0 \<le> unat (stream_off (strm st))" by simp
  then have m: "min (unat (stream_off (strm st))) (stream_limit s0) = stream_limit s0"
    by simp
  have "fetching st = {}" using fl I(7) by auto
  then have "unat (query_index s0) \<le> unat (end_of_file s0)
                \<longrightarrow> unat (stream_off (strm st)) = unat (query_index s0)"
    using I(9) lim by (auto simp: stream_limit_def)
  moreover have "(\<Sum>p\<leftarrow>ps. mset [fst p..<snd p]) = {#}"
  proof (rule sum_list_empty_intervals, rule ballI)
    fix p assume "p \<in> set ps"
    then obtain i where "i < length ps" "ps ! i = p" by (auto simp: in_set_conv_nth)
    with fl [of i] show "fst p = snd p" by simp
  qed
  then have "mset (map snd D) = mset [0..<(stream_limit s0 - 12) div 9]"
    using I(15) m by (simp del: mset_upt)
  ultimately show "mset (map snd D) = mset [0..<(stream_limit s0 - 12) div 9]
           \<and> stream_limit s0 \<le> unat (stream_off (strm st))
           \<and> (unat (query_index s0) \<le> unat (end_of_file s0)
                \<longrightarrow> unat (stream_off (strm st)) = unat (query_index s0))"
    using lim by blast
qed

text \<open>The definitions that evaluate a run on concrete data.\<close>

lemmas mt_eval = reader_step_def returned_def mt_start_def get_edge_def get_edge_fetched_def
  read_data_def read_data_fetched_def data_to_read_def query_clamps_def pread_loop.simps
  example_stream_def example_file_def example_reader_def MT_StreamReader_ctor_def exhausted_def
  breakpoint_condition_def parse_update_def le_word_def le_nat_def edge_size_def
  breakpoint_update_def BREAKPOINT_def INSERT_def minus_one_le_iff insert_Diff_if

lemma run_example_zero_buffer:
  "run example_file [0,0] (mt_start (example_stream 0) [MT_StreamReader_ctor []])
     = Some (Inr \<lparr> delivered = [(0, breakpoint_update)], strm = example_stream 0,
                   rdrs = [MT_StreamReader_ctor []], fetching = {} \<rparr>)"
  by (simp add: mt_eval)

lemma file_updates_example:
  "file_updates example_file =
     [\<lparr>edge = (0, 1), type = INSERT\<rparr>, \<lparr>edge = (1, 2), type = INSERT\<rparr>,
      \<lparr>edge = (0, 2), type = INSERT\<rparr>]"
proof -
  have "[0..<(length example_file - 12) div 9] = [0, 1, 2]"
    by (simp add: example_file_def upt_rec)
  then show ?thesis
    by (simp add: file_updates_def file_update_def mt_eval)
qed

text \<open>Runs on the example file. In the first, both readers pass the check before either
  fetches.\<close>

lemma run_example_race:
  "run example_file [0,1,0,1,0,0,1]
       (mt_start (example_stream 18) [MT_StreamReader_ctor [], MT_StreamReader_ctor []])
     = Some (Inr \<lparr> delivered =
          [(0, \<lparr>edge = (0, 1), type = INSERT\<rparr>), (1, \<lparr>edge = (0, 2), type = INSERT\<rparr>),
           (0, \<lparr>edge = (1, 2), type = INSERT\<rparr>), (0, breakpoint_update),
           (1, breakpoint_update)],
          strm = (example_stream 18)\<lparr>stream_off := 48\<rparr>,
          rdrs = [(example_reader 18)\<lparr>data_in_buf := 0\<rparr>,
                  \<lparr>start_buf = drop 30 example_file, buf = 9, data_in_buf = 0\<rparr>],
          fetching = {} \<rparr>)"
  by (simp add: mt_eval)

lemma unat_times9: "unat (x :: 64 word) * 9 < 2 ^ 64 \<Longrightarrow> unat (x * 9) = unat x * 9"
  using unat_mult_lem [of x 9] by simp

lemma unat_plus12: "unat (x :: 64 word) + 12 < 2 ^ 64 \<Longrightarrow> unat (x + 12) = unat x + 12"
  using unat_add_lem [of x 12] by simp

lemma ctor_end_of_file:
  assumes ctor: "BinaryGraphStream_MT_ctor fd file b = Inr s0"
      and len: "length file = 12 + 9 * unat (num_edges s0)"
      and nw: "length file < 2 ^ 64"
  shows "unat (end_of_file s0) = length file"
proof -
  have m: "unat (num_edges s0 * 9) = unat (num_edges s0) * 9"
    using len nw by (intro unat_times9) simp
  have "unat (num_edges s0 * 9 + 12) = unat (num_edges s0 * 9) + 12"
    using len nw m by (intro unat_plus12) simp
  then show ?thesis
    using ctor_fields(4) [OF ctor] m len by simp
qed

lemma file_update_in_file_updates:
  "n < (length file - 12) div 9 \<Longrightarrow> file_update file n \<in> set (file_updates file)"
  by (simp add: file_updates_def)

lemma ctor_stream_ok:
  assumes ctor: "BinaryGraphStream_MT_ctor fd file b = Inr s0"
      and bs: "buf_size s0 \<noteq> 0"
      and len: "length file = 12 + 9 * unat (num_edges s0)"
      and nw: "length file + k * unat (buf_size s0) < 2 ^ 64"
      and ns: "breakpoint_update \<notin> set (file_updates file)"
  shows "stream_ok file k s0" and "stream_limit s0 = length file"
proof -
  have E: "unat (end_of_file s0) = length file"
    using ctor_end_of_file [OF ctor len] nw by simp
  have Q: "unat (query_index s0) = 18446744073709551615"
    using ctor_fields(2) [OF ctor] by (simp add: unat_minus_one_64)
  show L: "stream_limit s0 = length file"
    using E Q nw by (simp add: stream_limit_def)
  have d: "9 dvd unat (buf_size s0)"
    using ctor_fields(5) [OF ctor] buf_size_dvd [of b] by simp
  have n: "\<forall>n < (length file - 12) div 9. file_update file n \<noteq> breakpoint_update"
    using ns file_update_in_file_updates by metis
  show "stream_ok file k s0"
    unfolding stream_ok_def L E Q
    using bs d len nw n by simp
qed

lemma registered_stream_ok:
  assumes ctor: "BinaryGraphStream_MT_ctor fd file b = Inr s0"
      and bs: "buf_size s0 \<noteq> 0"
      and len: "length file = 12 + 9 * unat (num_edges s0)"
      and nw: "length file + k * unat (buf_size s0) < 2 ^ 64"
      and ns: "breakpoint_update \<notin> set (file_updates file)"
      and reg: "register_query s0 q = (True, s1)"
      and qM: "unat q \<le> unat (num_edges s0)"
  shows "stream_ok file k s1" and "stream_limit s1 = 12 + 9 * unat q"
    and "stream_off s1 = 12" and "\<not> query_block s1"
    and "unat (query_index s1) \<le> unat (end_of_file s1)"
    and "unat (query_index s1) = 12 + 9 * unat q"
proof -
  have s1: "s1 = s0\<lparr>query_index := 12 + q * 9\<rparr>"
    using reg by (auto simp: register_query_def header_size_def edge_size_def Let_def
                       split: if_splits)
  have E: "unat (end_of_file s0) = length file"
    using ctor_end_of_file [OF ctor len] nw by simp
  have q9: "unat q * 9 < 2 ^ 64" using qM len nw by simp
  have m: "unat (q * 9) = unat q * 9"
    using q9 by (rule unat_times9)
  have "unat (q * 9 + 12) = unat (q * 9) + 12"
    using qM len nw m by (intro unat_plus12) simp
  then have "unat (12 + q * 9) = 12 + unat (q * 9)"
    by (simp add: add.commute)
  then show Q: "unat (query_index s1) = 12 + 9 * unat q"
    using m by (simp add: s1)
  show "unat (query_index s1) \<le> unat (end_of_file s1)"
    using Q E qM len by (simp add: s1)
  show L: "stream_limit s1 = 12 + 9 * unat q"
    using Q E qM len by (simp add: stream_limit_def s1)
  show "stream_off s1 = 12" "\<not> query_block s1"
    using ctor_fields(1,3) [OF ctor] by (simp_all add: s1)
  have d: "9 dvd unat (buf_size s0)"
    using ctor_fields(5) [OF ctor] buf_size_dvd [of b] by simp
  have n: "\<forall>n < unat q. file_update file n \<noteq> breakpoint_update"
  proof (intro allI impI)
    fix n assume "n < unat q"
    then have "n < (length file - 12) div 9" using qM len by simp
    from file_update_in_file_updates [OF this] ns
    show "file_update file n \<noteq> breakpoint_update" by metis
  qed
  show "stream_ok file k s1"
    unfolding stream_ok_def L
    using bs d len nw n E Q by (simp add: s1)
qed

lemma updates_of_indices:
  assumes "updates_of log = map (\<lambda>p. (fst p, file_update file (snd p))) D"
      and "mset (map snd D) = mset [0..<n]"
  shows "mset (map snd (updates_of log)) = mset (map (file_update file) [0..<n])"
    and "length (updates_of log) = n"
proof -
  have "map snd (updates_of log) = map (file_update file) (map snd D)"
    using assms(1) by (simp add: comp_def)
  then have "mset (map snd (updates_of log)) = image_mset (file_update file) (mset (map snd D))"
    by (simp del: mset_map add: mset_map [symmetric])
  then show "mset (map snd (updates_of log)) = mset (map (file_update file) [0..<n])"
    unfolding assms(2) by (simp del: mset_upt)
  have "length D = n"
    using assms(2) by (metis length_map length_upt mset_eq_length minus_nat.diff_0)
  then show "length (updates_of log) = n" using assms(1) by simp
qed

text \<open>C1, as amended. For a stream constructed on a file of exactly the \<open>M\<close> records
  its header announces, none of them equal to the sentinel, with a buffer of at least one
  record and \<open>k \<ge> 1\<close> fresh readers (the offsets staying below \<open>2^64\<close>): every
  interleaving of the readers' steps runs without an exception, and what the calls of
  \<open>get_edge\<close> have returned, the sentinels apart, are records of the file at pairwise
  distinct positions, so that no record is delivered twice; the positions delivered to one
  reader increase strictly; and once every reader has been returned a breakpoint, the
  multiset of the updates delivered is the multiset of the file's update sequence.\<close>
theorem exactly_once_delivery:
  assumes ctor: "BinaryGraphStream_MT_ctor fd file b = Inr s0"
      and bs: "buf_size s0 \<noteq> 0"
      and len: "length file = 12 + 9 * unat (num_edges s0)"
      and nw: "length file + length rs * unat (buf_size s0) < 2 ^ 64"
      and ns: "breakpoint_update \<notin> set (file_updates file)"
      and fr: "fresh_readers rs" and ne: "rs \<noteq> []"
  shows "\<exists>st D. run file sched (mt_start s0 rs) = Some (Inr st)
           \<and> updates_of (delivered st) = map (\<lambda>p. (fst p, file_update file (snd p))) D
           \<and> distinct (map snd D) \<and> set (map snd D) \<subseteq> {0..<unat (num_edges s0)}
           \<and> (\<forall>i. sorted_wrt (<) (map snd (filter (\<lambda>p. fst p = i) D)))
           \<and> ((\<forall>i<length rs. (i, breakpoint_update) \<in> set (delivered st)) \<longrightarrow>
                 mset (map snd (updates_of (delivered st))) = mset (file_updates file))"
proof -
  note ok = ctor_stream_ok [OF ctor bs len nw ns]
  have M: "(stream_limit s0 - 12) div 9 = unat (num_edges s0)"
    using ok(2) len by simp
  have init: "mt_inv file s0 (mt_start s0 rs) [] (replicate (length rs) (0, 0))"
    using ctor_fields(1,3) [OF ctor] by (intro mt_inv_init [OF ok(1) _ _ fr]) simp_all
  from run_inv [OF ok(1) _ init, of sched] obtain st D ps where
    r: "run file sched (mt_start s0 rs) = Some (Inr st)" "mt_inv file s0 st D ps"
       "length (rdrs st) = length rs"
    by (auto simp: mt_start_def)
  note I = mt_invD [OF r(2)]
  note F = mt_inv_final [OF r(2)]
  have all: "mset (map snd (updates_of (delivered st))) = mset (file_updates file)"
    if "\<forall>i<length rs. (i, breakpoint_update) \<in> set (delivered st)"
  proof -
    have "rdrs st \<noteq> []" using r(3) ne by auto
    from F(3) [OF this] that r(3)
    have "mset (map snd D) = mset [0..<unat (num_edges s0)]" unfolding M by simp
    from updates_of_indices(1) [OF I(12) this]
    show ?thesis using len by (simp add: file_updates_def)
  qed
  show ?thesis
    apply (rule exI [of _ st], rule exI [of _ D])
    apply (intro conjI impI)
    subgoal using r(1) .
    subgoal using I(12) .
    subgoal using F(1) .
    subgoal using F(2) unfolding M .
    subgoal using I(14) .
    subgoal using all .
    done
qed

text \<open>The log only records: a run from a longer log is the same run, with the longer log
  in front.\<close>

lemma returned_log:
  "returned i (st\<lparr>delivered := l\<rparr>) res =
     (case returned i (st\<lparr>delivered := []\<rparr>) res of
        None \<Rightarrow> None
      | Some (Inl e) \<Rightarrow> Some (Inl e)
      | Some (Inr st') \<Rightarrow> Some (Inr (st'\<lparr>delivered := l @ delivered st'\<rparr>)))"
  by (simp add: returned_def split: option.splits sum.splits prod.splits)

lemma reader_step_log:
  "reader_step file i (st\<lparr>delivered := l\<rparr>) =
     (case reader_step file i (st\<lparr>delivered := []\<rparr>) of
        None \<Rightarrow> None
      | Some (Inl e) \<Rightarrow> Some (Inl e)
      | Some (Inr st') \<Rightarrow> Some (Inr (st'\<lparr>delivered := l @ delivered st'\<rparr>)))"
  unfolding reader_step_def
  by (simp add: returned_log [where st = st and l = l])

lemma run_log:
  "run file sched (st\<lparr>delivered := l\<rparr>) =
     (case run file sched (st\<lparr>delivered := []\<rparr>) of
        None \<Rightarrow> None
      | Some (Inl e) \<Rightarrow> Some (Inl e)
      | Some (Inr st') \<Rightarrow> Some (Inr (st'\<lparr>delivered := l @ delivered st'\<rparr>)))"
proof (induction sched arbitrary: st l)
  case Nil
  show ?case by simp
next
  case (Cons i sched)
  show ?case
  proof (cases "reader_step file i (st\<lparr>delivered := []\<rparr>)")
    case None
    then show ?thesis using reader_step_log [where st = st and l = l and i = i] by simp
  next
    case (Some x)
    show ?thesis
    proof (cases x)
      case (Inl e)
      then show ?thesis using Some reader_step_log [where st = st and l = l and i = i] by simp
    next
      case (Inr st1)
      have a: "reader_step file i (st\<lparr>delivered := l\<rparr>)
                 = Some (Inr (st1\<lparr>delivered := l @ delivered st1\<rparr>))"
        using Some Inr reader_step_log [where st = st and l = l and i = i] by simp
      have b: "run file sched st1 =
                 (case run file sched (st1\<lparr>delivered := []\<rparr>) of
                    None \<Rightarrow> None
                  | Some (Inl e) \<Rightarrow> Some (Inl e)
                  | Some (Inr st') \<Rightarrow> Some (Inr (st'\<lparr>delivered := delivered st1 @ delivered st'\<rparr>)))"
        using Cons.IH [where st = st1 and l = "delivered st1"] by simp
      have c: "run file sched (st1\<lparr>delivered := l @ delivered st1\<rparr>) =
                 (case run file sched (st1\<lparr>delivered := []\<rparr>) of
                    None \<Rightarrow> None
                  | Some (Inl e) \<Rightarrow> Some (Inl e)
                  | Some (Inr st') \<Rightarrow>
                      Some (Inr (st'\<lparr>delivered := (l @ delivered st1) @ delivered st'\<rparr>)))"
        by (rule Cons.IH)
      show ?thesis
        using Some Inr a b c
        by (simp split: option.splits sum.splits)
    qed
  qed
qed


lemma mt_inv_quiescent:
  assumes ok: "stream_ok file k s0" and qb: "\<not> query_block s0"
      and so: "unat (stream_off s0) = 12 + 9 * p" and pl: "12 + 9 * p \<le> stream_limit s0"
      and ex: "list_all exhausted rs"
      and up: "updates_of L = map (\<lambda>e. (fst e, file_update file (snd e))) D0"
      and nb: "\<forall>i. (i, breakpoint_update) \<notin> set L"
      and ms: "mset (map snd D0) = mset [0..<p]"
      and ix: "\<forall>e\<in>set D0. fst e < length rs"
      and sd: "\<forall>i. sorted_wrt (<) (map snd (filter (\<lambda>e. fst e = i) D0))"
  shows "mt_inv file s0 \<lparr> delivered = L, strm = s0, rdrs = rs, fetching = {} \<rparr> D0
           (replicate (length rs) (p, p))"
proof -
  have r: "reader_ok file (rs ! i) (p, p)" if "i < length rs" for i
    using ex that by (simp add: list_all_length reader_ok_def)
  have m: "min (unat (stream_off s0)) (stream_limit s0) = 12 + 9 * p"
    using so pl by simp
  have Q: "12 + 9 * p \<le> unat (query_index s0)" using pl by (simp add: stream_limit_def)
  have sn: "snd e < p" if "e \<in> set D0" for e
  proof -
    have "snd e \<in> set (map snd D0)" using that by simp
    also have "set (map snd D0) = set [0..<p]" using mset_eq_setD [OF ms] .
    finally show ?thesis by simp
  qed
  show ?thesis
    unfolding mt_inv_def
    apply (intro conjI)
    subgoal by simp
    subgoal by simp
    subgoal by simp
    subgoal using qb by simp
    subgoal using so by simp
    subgoal using so by simp
    subgoal by simp
    subgoal using so pl by simp
    subgoal using so Q by simp
    subgoal by simp
    subgoal using r nb by (simp add: m)
    subgoal using up by simp
    subgoal using ix sn by simp
    subgoal using sd by simp
    subgoal
    proof -
      have "(\<Sum>p\<leftarrow>replicate (length rs) (p, p). mset [fst p..<snd p]) = {#}"
        by (rule sum_list_empty_intervals) simp
      then show ?thesis using ms by (simp add: m del: map_replicate mset_upt)
    qed
    done
qed

lemma mt_inv_register:
  assumes inv: "mt_inv file s0 st D ps"
      and q0: "unat (end_of_file s0) \<le> unat (query_index s0)"
      and lt: "unat (stream_off (strm st)) < unat qi"
      and le: "unat qi \<le> unat (end_of_file s0)"
  shows "mt_inv file (s0\<lparr>query_index := qi\<rparr>) (st\<lparr>strm := (strm st)\<lparr>query_index := qi\<rparr>\<rparr>) D ps"
proof -
  note I = mt_invD [OF inv]
  have L0: "stream_limit s0 = unat (end_of_file s0)" using q0 by (simp add: stream_limit_def)
  have L1: "stream_limit (s0\<lparr>query_index := qi\<rparr>) = unat qi"
    using le by (simp add: stream_limit_def)
  have m0: "min (unat (stream_off (strm st))) (stream_limit s0) = unat (stream_off (strm st))"
    using lt le L0 by simp
  have m1: "min (unat (stream_off (strm st))) (unat qi) = unat (stream_off (strm st))"
    using lt by simp
  have cf: "card (fetching st) \<le> length ps"
    using card_mono [OF _ I(7)] by simp
  have cm: "unat (buf_size s0) * card (fetching st) \<le> unat (buf_size s0) * length ps"
    using cf by simp
  have nobp: "(i, breakpoint_update) \<notin> set (delivered st)" if "i < length ps" for i
  proof
    assume "(i, breakpoint_update) \<in> set (delivered st)"
    with I(11) [rule_format, OF that]
    have "stream_limit s0 \<le> unat (stream_off (strm st))" by simp
    then show False using lt le L0 by simp
  qed
  show ?thesis
    unfolding mt_inv_def L1
    apply (intro conjI)
    subgoal using I(1) by simp
    subgoal using I(2) by simp
    subgoal by simp
    subgoal using I(4) by simp
    subgoal using I(5) by simp
    subgoal using I(6) by simp
    subgoal using I(7) by simp
    subgoal
    proof -
      have "unat (stream_off (strm st)) + unat (buf_size s0) * card (fetching st)
              \<le> unat qi + unat (buf_size s0) * length ps"
        using lt cm by linarith
      then show ?thesis by simp
    qed
    subgoal using lt by simp
    subgoal using I(10) by simp
    subgoal using I(11) nobp I(10) by (simp add: m0 m1)
    subgoal using I(12) by simp
    subgoal using I(13) by simp
    subgoal using I(14) by simp
    subgoal using I(15) by (simp add: m0 m1 del: mset_upt)
    done
qed


lemma run_log_transfer:
  assumes "run file sched (X\<lparr>delivered := A\<rparr>) = Some (Inr g)"
  shows "\<exists>e. run file sched (X\<lparr>delivered := B\<rparr>) = Some (Inr (e\<lparr>delivered := B @ delivered e\<rparr>))
             \<and> g = e\<lparr>delivered := A @ delivered e\<rparr>"
proof (cases "run file sched (X\<lparr>delivered := []\<rparr>)")
  case None
  then show ?thesis using assms run_log [where st = X and l = A and sched = sched] by simp
next
  case (Some x)
  show ?thesis
  proof (cases x)
    case (Inl e)
    then show ?thesis
      using Some assms run_log [where st = X and l = A and sched = sched] by simp
  next
    case (Inr e)
    have "g = e\<lparr>delivered := A @ delivered e\<rparr>"
      using Some Inr assms run_log [where st = X and l = A and sched = sched] by simp
    moreover have "run file sched (X\<lparr>delivered := B\<rparr>)
                     = Some (Inr (e\<lparr>delivered := B @ delivered e\<rparr>))"
      using Some Inr run_log [where st = X and l = B and sched = sched] by simp
    ultimately show ?thesis by blast
  qed
qed

lemma read_data_fetched_strm:
  "read_data_fetched file os s1 ro b = Some (res, s', b') \<Longrightarrow>
     s' = s1\<lparr>stream_off := stream_off s'\<rparr>"
  by (auto simp: read_data_fetched_def Let_def split: if_splits option.splits sum.splits prod.splits)

lemma get_edge_fetched_strm:
  "get_edge_fetched file os s1 ro r = Some (res, s', r') \<Longrightarrow>
     s' = s1\<lparr>stream_off := stream_off s'\<rparr>"
  by (auto simp: get_edge_fetched_def split: if_splits option.splits sum.splits prod.splits
           dest: read_data_fetched_strm)

lemma get_edge_strm:
  "get_edge file os s r = Some (res, s', r') \<Longrightarrow> s' = s\<lparr>stream_off := stream_off s'\<rparr>"
  by (auto simp: get_edge_def read_data_def
           split: if_splits option.splits sum.splits prod.splits
           dest!: read_data_fetched_strm)

lemma reader_step_strm:
  "reader_step file i st = Some (Inr st') \<Longrightarrow>
     strm st' = (strm st)\<lparr>stream_off := stream_off (strm st')\<rparr>"
  by (auto simp: reader_step_def returned_def
           split: if_splits option.splits sum.splits prod.splits
           dest!: get_edge_strm get_edge_fetched_strm)

lemma run_strm:
  "run file sched st = Some (Inr st') \<Longrightarrow>
     strm st' = (strm st)\<lparr>stream_off := stream_off (strm st')\<rparr>"
proof (induction sched arbitrary: st)
  case Nil
  then show ?case by simp
next
  case (Cons i sched)
  from Cons.prems obtain st1 where
    s: "reader_step file i st = Some (Inr st1)" "run file sched st1 = Some (Inr st')"
    by (auto split: option.splits sum.splits)
  from reader_step_strm [OF s(1)] Cons.IH [OF s(2)]
  have "strm st' = ((strm st)\<lparr>stream_off := stream_off (strm st1)\<rparr>)\<lparr>stream_off := stream_off (strm st')\<rparr>"
    by simp
  then show ?case by simp
qed

lemma updates_of_append: "updates_of (xs @ ys) = updates_of xs @ updates_of ys"
  by (simp add: updates_of_def)

lemma updates_of_idem: "updates_of (updates_of xs) = updates_of xs"
  by (simp add: updates_of_def)

lemma updates_of_no_breakpoint: "(i, breakpoint_update) \<notin> set (updates_of xs)"
  by (simp add: updates_of_def)


lemma stream_ok_stream_off:
  "stream_ok file k (s\<lparr>stream_off := x\<rparr>) = stream_ok file k s"
  "stream_limit (s\<lparr>stream_off := x\<rparr>) = stream_limit s"
  by (simp_all add: stream_ok_def stream_limit_def)

lemma register_query_parts:
  "register_query s q =
     (if register_query_admits s q then (True, register_query_store s q) else (False, s))"
  by (simp add: register_query_def register_query_admits_def register_query_store_def Let_def)

lemma register_query_accepted:
  assumes "register_query s q = (True, s1)"
  shows "s1 = s\<lparr>query_index := 12 + q * 9\<rparr>" and "unat (stream_off s) < unat (12 + q * 9)"
  using assms
  by (auto simp: register_query_def header_size_def edge_size_def Let_def word_le_nat_alt
           split: if_splits)

text \<open>C2, as amended. The stream is the one constructed on a file of exactly the \<open>M\<close>
  records its header announces (none of them equal to the sentinel, buffer of at least one
  record, offsets below \<open>2^64\<close>, reads transferred in full), with no pause in force and
  no query registered, at \<open>stream_off = header_size + 9p\<close>: the fresh stream (\<open>p = 0\<close>)
  or the stream after \<open>post_query_resume\<close>. Its \<open>k \<ge> 1\<close> readers have consumed their
  buffers and what they have been returned so far (\<open>log0\<close>) are, the sentinels apart, the
  records at the positions \<open>0, \<dots>, p - 1\<close>, each once and in increasing order at each
  reader. The readers may then run, in any interleaving (\<open>sched1\<close>), before
  \<open>register_query(q)\<close> is called and succeeds, with \<open>q\<close> at most \<open>M\<close>; the call is
  one step between the steps of the readers. Then, in every interleaving of the readers
  (\<open>sched2\<close>): the run returns without an exception and only adds to the log; all that
  has been delivered since the start of the stream are records at positions below \<open>q\<close>,
  each at most once, in increasing order at each reader. If a reader has been returned a
  breakpoint since the registration, \<open>stream_off\<close> has reached \<open>header_size + 9q\<close> and
  every record before \<open>q\<close> has been delivered or is held by a reader, in the part of its
  buffer still to be delivered (\<open>reader_ok\<close>); the reader that was returned the breakpoint
  holds none. Once every reader has been returned a breakpoint, \<open>stream_off\<close> is exactly
  \<open>header_size + 9q\<close>, exactly \<open>q\<close> updates have been delivered since the start of the
  stream, those at the positions \<open>0, \<dots>, q - 1\<close>, every reader has consumed its buffer
  and none is in the middle of a fetch: after \<open>post_query_resume\<close> the stream and the
  readers are again as assumed above, with \<open>q\<close> for \<open>p\<close>.\<close>
theorem registered_query_boundary:
  assumes ctor: "BinaryGraphStream_MT_ctor fd file b = Inr c"
      and bs: "buf_size c \<noteq> 0"
      and len: "length file = 12 + 9 * unat (num_edges c)"
      and nw: "length file + length rs * unat (buf_size c) < 2 ^ 64"
      and ns: "breakpoint_update \<notin> set (file_updates file)"
      and ne: "rs \<noteq> []"
      and so: "unat so = 12 + 9 * p" and pM: "p \<le> unat (num_edges c)"
      and ex: "list_all exhausted rs"
      and h1: "updates_of log0 = map (\<lambda>e. (fst e, file_update file (snd e))) D0"
      and h2: "mset (map snd D0) = mset [0..<p]"
      and h3: "\<forall>e\<in>set D0. fst e < length rs"
      and h4: "\<forall>i. sorted_wrt (<) (map snd (filter (\<lambda>e. fst e = i) D0))"
      and r1: "run file sched1
                 \<lparr> delivered = log0, strm = c\<lparr>stream_off := so\<rparr>, rdrs = rs, fetching = {} \<rparr>
               = Some (Inr st1)"
      and reg: "register_query (strm st1) q = (True, s1)"
      and qM: "unat q \<le> unat (num_edges c)"
  shows "\<exists>st D. run file sched2 (st1\<lparr>strm := s1\<rparr>) = Some (Inr st)
           \<and> take (length (delivered st1)) (delivered st) = delivered st1
           \<and> post_query_resume (strm st) = c\<lparr>stream_off := stream_off (strm st)\<rparr>
           \<and> length (rdrs st) = length rs
           \<and> updates_of (delivered st) = map (\<lambda>e. (fst e, file_update file (snd e))) D
           \<and> distinct (map snd D) \<and> set (map snd D) \<subseteq> {0..<unat q}
           \<and> (\<forall>e\<in>set D. fst e < length rs)
           \<and> (\<forall>i. sorted_wrt (<) (map snd (filter (\<lambda>e. fst e = i) D)))
           \<and> ((\<exists>i<length rs.
                   (i, breakpoint_update) \<in> set (drop (length (delivered st1)) (delivered st))) \<longrightarrow>
                 12 + 9 * unat q \<le> unat (stream_off (strm st))
                 \<and> (\<exists>ps. length ps = length rs
                       \<and> (\<forall>i<length rs. reader_ok file (rdrs st ! i) (ps ! i)
                             \<and> ((i, breakpoint_update)
                                    \<in> set (drop (length (delivered st1)) (delivered st)) \<longrightarrow>
                                  fst (ps ! i) = snd (ps ! i)))
                       \<and> mset (map snd D) + (\<Sum>p\<leftarrow>ps. mset [fst p..<snd p])
                           = mset [0..<unat q]))
           \<and> ((\<forall>i<length rs.
                   (i, breakpoint_update) \<in> set (drop (length (delivered st1)) (delivered st))) \<longrightarrow>
                 unat (stream_off (strm st)) = 12 + 9 * unat q
                 \<and> mset (map snd D) = mset [0..<unat q]
                 \<and> length (updates_of (delivered st)) = unat q
                 \<and> list_all exhausted (rdrs st) \<and> fetching st = {})"
proof -
  define s0 where "s0 = c\<lparr>stream_off := so\<rparr>"
  define L where "L = updates_of log0"
  define R0 where "R0 = \<lparr> delivered = log0, strm = s0, rdrs = rs, fetching = {} \<rparr>"
  note okc = ctor_stream_ok [OF ctor bs len nw ns]
  note cf = ctor_fields [OF ctor]
  have ok0: "stream_ok file (length rs) s0"
    using okc(1) by (simp add: s0_def stream_ok_stream_off)
  have lim0: "stream_limit s0 = length file"
    using okc(2) by (simp add: s0_def stream_ok_stream_off)
  have E: "unat (end_of_file c) = length file"
    using ctor_end_of_file [OF ctor len] nw by simp
  have init: "mt_inv file s0 \<lparr> delivered = L, strm = s0, rdrs = rs, fetching = {} \<rparr> D0
                (replicate (length rs) (p, p))"
  proof (rule mt_inv_quiescent [OF ok0 _ _ _ ex _ _ h2 h3 h4])
    show "\<not> query_block s0" using cf(3) by (simp add: s0_def)
    show "unat (stream_off s0) = 12 + 9 * p" using so by (simp add: s0_def)
    show "12 + 9 * p \<le> stream_limit s0" using pM len by (simp add: lim0)
    show "updates_of L = map (\<lambda>e. (fst e, file_update file (snd e))) D0"
      unfolding L_def updates_of_idem by (rule h1)
    show "\<forall>i. (i, breakpoint_update) \<notin> set L"
      by (simp add: L_def updates_of_no_breakpoint)
  qed
  have G0: "\<lparr> delivered = L, strm = s0, rdrs = rs, fetching = {} \<rparr> = R0\<lparr>delivered := L\<rparr>"
    by (simp add: R0_def)
  from run_inv [OF ok0 _ init, of sched1] obtain g1 D1 ps1 where
    g1: "run file sched1 (R0\<lparr>delivered := L\<rparr>) = Some (Inr g1)" "mt_inv file s0 g1 D1 ps1"
        "length (rdrs g1) = length rs"
    unfolding G0 by (auto simp: R0_def)
  from run_log_transfer [OF g1(1), of log0] obtain e1 where
    e1: "run file sched1 (R0\<lparr>delivered := log0\<rparr>)
           = Some (Inr (e1\<lparr>delivered := log0 @ delivered e1\<rparr>))"
        "g1 = e1\<lparr>delivered := L @ delivered e1\<rparr>"
    by blast
  have "R0\<lparr>delivered := log0\<rparr> = R0" by (simp add: R0_def)
  then have st1: "st1 = e1\<lparr>delivered := log0 @ delivered e1\<rparr>"
    using e1(1) r1 by (simp add: R0_def s0_def)
  note I1 = mt_invD [OF g1(2)]
  have sg: "strm g1 = strm st1" by (simp add: st1 e1(2))
  define qi :: "64 word" where "qi = 12 + q * 9"
  note rq = register_query_accepted [OF reg, folded qi_def]
  have s1: "s1 = (strm g1)\<lparr>query_index := qi\<rparr>" using rq(1) by (simp add: sg)
  have lt: "unat (stream_off (strm g1)) < unat qi" using rq(2) by (simp add: sg)
  have "\<not> qi \<le> 12"
    using lt I1(5) by (simp add: word_le_nat_alt)
  then have regc: "register_query c q = (True, c\<lparr>query_index := qi\<rparr>)"
    using cf(1) by (simp add: register_query_def header_size_def edge_size_def qi_def)
  note ok1 = registered_stream_ok [OF ctor bs len nw ns regc qM]
  have Q: "unat qi = 12 + 9 * unat q" using ok1(6) by simp
  have ok1': "stream_ok file (length rs) (s0\<lparr>query_index := qi\<rparr>)"
  proof -
    have "s0\<lparr>query_index := qi\<rparr> = (c\<lparr>query_index := qi\<rparr>)\<lparr>stream_off := so\<rparr>"
      by (simp add: s0_def)
    then show ?thesis using ok1(1) by (simp add: stream_ok_stream_off)
  qed
  have lim1: "stream_limit (s0\<lparr>query_index := qi\<rparr>) = 12 + 9 * unat q"
  proof -
    have "s0\<lparr>query_index := qi\<rparr> = (c\<lparr>query_index := qi\<rparr>)\<lparr>stream_off := so\<rparr>"
      by (simp add: s0_def)
    then show ?thesis using ok1(2) by (simp add: stream_ok_stream_off)
  qed
  have M: "(stream_limit (s0\<lparr>query_index := qi\<rparr>) - 12) div 9 = unat q"
    by (simp add: lim1)
  have q0: "unat (end_of_file s0) \<le> unat (query_index s0)"
    using cf(2) unat_le_max64 [of "end_of_file c"] by (simp add: s0_def unat_minus_one_64)
  have le: "unat qi \<le> unat (end_of_file s0)"
    using Q E qM len by (simp add: s0_def)
  have inv1: "mt_inv file (s0\<lparr>query_index := qi\<rparr>) (g1\<lparr>strm := s1\<rparr>) D1 ps1"
    unfolding s1 by (rule mt_inv_register [OF g1(2) q0 lt le])
  have lps1: "length ps1 \<le> length rs" using I1(10) g1(3) by simp
  from run_inv [OF ok1' lps1 inv1, of sched2] obtain g2 D ps where
    g2: "run file sched2 (g1\<lparr>strm := s1\<rparr>) = Some (Inr g2)"
        "mt_inv file (s0\<lparr>query_index := qi\<rparr>) g2 D ps"
        "length (rdrs g2) = length rs"
    using g1(3) by auto
  define d1 where "d1 = delivered e1"
  have X: "g1\<lparr>strm := s1\<rparr> = (st1\<lparr>strm := s1\<rparr>)\<lparr>delivered := L @ d1\<rparr>"
    by (simp add: st1 e1(2) d1_def)
  from run_log_transfer [OF g2(1) [unfolded X], of "log0 @ d1"] obtain e2 where
    e2: "run file sched2 ((st1\<lparr>strm := s1\<rparr>)\<lparr>delivered := log0 @ d1\<rparr>)
           = Some (Inr (e2\<lparr>delivered := (log0 @ d1) @ delivered e2\<rparr>))"
        "g2 = e2\<lparr>delivered := (L @ d1) @ delivered e2\<rparr>"
    by blast
  define d2 where "d2 = delivered e2"
  define st where "st = e2\<lparr>delivered := (log0 @ d1) @ d2\<rparr>"
  have dl1: "delivered st1 = log0 @ d1" by (simp add: st1 d1_def)
  have "(st1\<lparr>strm := s1\<rparr>)\<lparr>delivered := log0 @ d1\<rparr> = st1\<lparr>strm := s1\<rparr>"
    by (simp add: st1 d1_def)
  then have run2: "run file sched2 (st1\<lparr>strm := s1\<rparr>) = Some (Inr st)"
    using e2(1) by (simp add: st_def d2_def)
  have fld: "strm st = strm g2" "rdrs st = rdrs g2" "fetching st = fetching g2"
       "delivered st = delivered st1 @ d2" "delivered g2 = L @ d1 @ d2"
    by (simp_all add: st_def e2(2) dl1 d2_def)
  have new: "drop (length (delivered st1)) (delivered st) = d2" by (simp add: fld(4))
  note I = mt_invD [OF g2(2)]
  note F = mt_inv_final [OF g2(2)]
  have lps: "length ps = length rs" using I(10) g2(3) by simp
  have up: "updates_of (delivered st) = map (\<lambda>e. (fst e, file_update file (snd e))) D"
  proof -
    have "updates_of (delivered st) = updates_of (delivered g2)"
      by (simp add: fld(4,5) dl1 updates_of_append L_def updates_of_idem)
    then show ?thesis using I(12) by simp
  qed
  have bp: "(i, breakpoint_update) \<in> set (delivered g2)" if "(i, breakpoint_update) \<in> set d2" for i
    using that by (simp add: fld(5))
  have strm: "post_query_resume (strm st) = c\<lparr>stream_off := stream_off (strm st)\<rparr>"
  proof -
    define x where "x = stream_off (strm st)"
    from run_strm [OF r1] have a: "strm st1 = c\<lparr>stream_off := stream_off (strm st1)\<rparr>"
      by simp
    from run_strm [OF run2] have b: "strm st = s1\<lparr>stream_off := x\<rparr>"
      by (simp add: x_def)
    have eq: "strm st = c\<lparr>stream_off := x, query_index := qi\<rparr>"
      by (subst b, subst s1, subst sg, subst a) simp
    have cc: "c\<lparr>query_index := - 1, query_block := False\<rparr> = c"
      using cf(2,3) by (cases c) simp
    have "post_query_resume (c\<lparr>stream_off := x, query_index := qi\<rparr>)
            = (c\<lparr>query_index := - 1, query_block := False\<rparr>)\<lparr>stream_off := x\<rparr>"
      by (simp add: post_query_resume_def)
    then have "post_query_resume (strm st) = c\<lparr>stream_off := x\<rparr>"
      unfolding cc eq .
    then show ?thesis by (simp add: x_def)
  qed
  have some: "12 + 9 * unat q \<le> unat (stream_off (strm st))
                 \<and> (\<exists>ps. length ps = length rs
                       \<and> (\<forall>i<length rs. reader_ok file (rdrs st ! i) (ps ! i)
                             \<and> ((i, breakpoint_update)
                                    \<in> set (drop (length (delivered st1)) (delivered st)) \<longrightarrow>
                                  fst (ps ! i) = snd (ps ! i)))
                       \<and> mset (map snd D) + (\<Sum>p\<leftarrow>ps. mset [fst p..<snd p])
                           = mset [0..<unat q])"
    if "\<exists>i<length rs. (i, breakpoint_update) \<in> set (drop (length (delivered st1)) (delivered st))"
  proof -
    from that obtain i where i: "i < length ps" "(i, breakpoint_update) \<in> set d2"
      using lps new by auto
    from I(11) [rule_format, OF i(1)] bp [OF i(2)]
    have reach: "12 + 9 * unat q \<le> unat (stream_off (strm st))" by (simp add: lim1 fld(1))
    then have m: "(min (unat (stream_off (strm g2))) (stream_limit (s0\<lparr>query_index := qi\<rparr>)) - 12) div 9
                    = unat q"
      by (simp add: lim1 fld(1))
    have "\<forall>i<length rs. reader_ok file (rdrs st ! i) (ps ! i)
                             \<and> ((i, breakpoint_update)
                                    \<in> set (drop (length (delivered st1)) (delivered st)) \<longrightarrow>
                                  fst (ps ! i) = snd (ps ! i))"
    proof (intro allI impI conjI)
      fix j assume j: "j < length rs"
      then have jp: "j < length ps" using lps by simp
      show "reader_ok file (rdrs st ! j) (ps ! j)"
        using I(11) [rule_format, OF jp] by (simp add: fld(2))
      assume "(j, breakpoint_update) \<in> set (drop (length (delivered st1)) (delivered st))"
      then have "(j, breakpoint_update) \<in> set (delivered g2)" using bp new by simp
      then show "fst (ps ! j) = snd (ps ! j)" using I(11) [rule_format, OF jp] by simp
    qed
    moreover have "mset (map snd D) + (\<Sum>p\<leftarrow>ps. mset [fst p..<snd p]) = mset [0..<unat q]"
      using I(15) unfolding m .
    ultimately show ?thesis using reach lps by blast
  qed
  have all: "unat (stream_off (strm st)) = 12 + 9 * unat q
                 \<and> mset (map snd D) = mset [0..<unat q]
                 \<and> length (updates_of (delivered st)) = unat q
                 \<and> list_all exhausted (rdrs st) \<and> fetching st = {}"
    if a: "\<forall>i<length rs. (i, breakpoint_update) \<in> set (drop (length (delivered st1)) (delivered st))"
  proof -
    have a': "\<forall>i<length (rdrs g2). (i, breakpoint_update) \<in> set (delivered g2)"
      using a bp new g2(3) by simp
    have "rdrs g2 \<noteq> []" using g2(3) ne by auto
    from F(3) [OF this a']
    have m: "mset (map snd D) = mset [0..<unat q]"
      and so': "unat (stream_off (strm st)) = unat qi"
      unfolding M using ok1(5) le by (simp_all add: fld(1) s0_def)
    have fl: "fst (ps ! i) = snd (ps ! i) \<and> i \<notin> fetching g2" if "i < length ps" for i
      using I(11) [rule_format, OF that] a' that lps g2(3) by simp
    have "fetching g2 = {}" using fl I(7) by auto
    moreover have "list_all exhausted (rdrs g2)"
      unfolding list_all_length
    proof (intro allI impI)
      fix i assume "i < length (rdrs g2)"
      then have ip: "i < length ps" using lps g2(3) by simp
      from I(11) [rule_format, OF ip] fl [OF ip]
      show "exhausted (rdrs g2 ! i)" by (simp add: reader_ok_def)
    qed
    ultimately show ?thesis
      using so' Q m updates_of_indices(2) [OF up m] by (simp add: fld)
  qed
  have ix: "\<forall>e\<in>set D. fst e < length rs" using I(13) lps by auto
  show ?thesis
    apply (rule exI [of _ st], rule exI [of _ D])
    apply (intro conjI)
    subgoal using run2 .
    subgoal by (simp add: fld(4))
    subgoal using strm .
    subgoal using g2(3) by (simp add: fld(2))
    subgoal using up .
    subgoal using F(1) .
    subgoal using F(2) unfolding M .
    subgoal using ix .
    subgoal using I(14) .
    subgoal using some by blast
    subgoal using all by blast
    done
qed

lemma run_example_late_query:
  "run example_file [0,0,0,0,0,0]
       (mt_start ((example_stream 18)\<lparr>query_index := 57\<rparr>) [MT_StreamReader_ctor []])
     = Some (Inr \<lparr> delivered =
          [(0, \<lparr>edge = (0, 1), type = INSERT\<rparr>), (0, \<lparr>edge = (1, 2), type = INSERT\<rparr>),
           (0, \<lparr>edge = (0, 2), type = INSERT\<rparr>), (0, breakpoint_update)],
          strm = (example_stream 18)\<lparr>query_index := 57, stream_off := 48\<rparr>,
          rdrs = [\<lparr>start_buf = drop 30 example_file @ drop 9 (take 18 (drop 12 example_file)),
                    buf = 9, data_in_buf = 0\<rparr>],
          fetching = {} \<rparr>)"
  by (simp add: mt_eval)

lemma register_example:
  "register_query (example_stream 18) 2 = (True, (example_stream 18)\<lparr>query_index := 30\<rparr>)"
  "register_query (example_stream 18) 5 = (True, (example_stream 18)\<lparr>query_index := 57\<rparr>)"
  by (simp_all add: register_query_def example_stream_def header_size_def edge_size_def)

lemma example_hyps:
  "buf_size (example_stream 18) \<noteq> 0"
  "length example_file = 12 + 9 * unat (num_edges (example_stream 18))"
  "breakpoint_update \<notin> set (file_updates example_file)"
  "fresh_readers [MT_StreamReader_ctor [], MT_StreamReader_ctor []]"
  by (simp_all add: example_stream_def length_example_file file_updates_example
        breakpoint_update_def INSERT_def BREAKPOINT_def fresh_readers_def MT_StreamReader_ctor_def)

text \<open>Two queries on the example file, with two readers. The first is registered at
  index 1 on the fresh stream; the readers stop at offset 21. After \<open>post_query_resume\<close>
  reader 0 passes the check of \<open>read_data\<close>, then the second query is registered at index
  2, and the readers stop at offset 30. In the third run a query is registered at index 2 on
  the fresh stream and reader 1 is returned a breakpoint while reader 0 still holds the
  second record; in the fourth an on-demand pause is in force.\<close>

lemmas mt_eval_query = mt_eval example_paused_stream_def example_paused_reader_def example_log_def
  example_resumed_readers_def post_query_resume_def

lemma run_example_first_query:
  "run example_file [0,0,1,0]
       (mt_start ((example_stream 18)\<lparr>query_index := 21\<rparr>)
          [MT_StreamReader_ctor [], MT_StreamReader_ctor []])
     = Some (Inr \<lparr> delivered = example_log, strm = example_paused_stream,
                   rdrs = example_resumed_readers, fetching = {} \<rparr>)"
  by (simp add: mt_eval_query)

lemma run_example_resumed_check:
  "run example_file [0]
       \<lparr> delivered = example_log, strm = (example_stream 18)\<lparr>stream_off := 21\<rparr>,
         rdrs = example_resumed_readers, fetching = {} \<rparr>
     = Some (Inr \<lparr> delivered = example_log, strm = (example_stream 18)\<lparr>stream_off := 21\<rparr>,
                   rdrs = example_resumed_readers, fetching = {0} \<rparr>)"
  by (simp add: mt_eval_query)

lemma run_example_second_query:
  "run example_file [1,0,1,0,1]
       \<lparr> delivered = example_log,
         strm = (example_stream 18)\<lparr>stream_off := 21, query_index := 30\<rparr>,
         rdrs = example_resumed_readers, fetching = {0} \<rparr>
     = Some (Inr \<lparr> delivered = example_log @
                     [(0, \<lparr>edge = (1, 2), type = INSERT\<rparr>), (1, breakpoint_update),
                      (0, breakpoint_update), (1, breakpoint_update)],
                   strm = (example_stream 18)\<lparr>stream_off := 30, query_index := 30\<rparr>,
                   rdrs = [\<lparr>start_buf = take 9 (drop 21 example_file), buf = 9, data_in_buf = 0\<rparr>,
                           MT_StreamReader_ctor []],
                   fetching = {} \<rparr>)"
  by (simp add: mt_eval_query)

lemma run_example_early_breakpoint:
  "run example_file [0,0,1]
       (mt_start ((example_stream 18)\<lparr>query_index := 30\<rparr>)
          [MT_StreamReader_ctor [], MT_StreamReader_ctor []])
     = Some (Inr \<lparr> delivered = [(0, \<lparr>edge = (0, 1), type = INSERT\<rparr>), (1, breakpoint_update)],
                   strm = (example_stream 18)\<lparr>query_index := 30, stream_off := 30\<rparr>,
                   rdrs = [example_reader 9, MT_StreamReader_ctor []], fetching = {} \<rparr>)"
  by (simp add: mt_eval_query)

lemma run_example_pause:
  "run example_file [0]
       (mt_start ((on_demand_query (example_stream 18))\<lparr>query_index := 30\<rparr>)
          [MT_StreamReader_ctor []])
     = Some (Inr \<lparr> delivered = [(0, breakpoint_update)],
                   strm = (on_demand_query (example_stream 18))\<lparr>query_index := 30\<rparr>,
                   rdrs = [MT_StreamReader_ctor []], fetching = {} \<rparr>)"
  by (simp add: mt_eval_query on_demand_query_def)


lemma run_example_query_zero_buffer:
  "run example_file [0,0]
       (mt_start ((example_stream 0)\<lparr>query_index := 30\<rparr>) [MT_StreamReader_ctor []])
     = Some (Inr \<lparr> delivered = [(0, breakpoint_update)],
                   strm = (example_stream 0)\<lparr>query_index := 30\<rparr>,
                   rdrs = [MT_StreamReader_ctor []], fetching = {} \<rparr>)"
  by (simp add: mt_eval_query)

lemma example_resumed_hyps:
  "length example_file
     + length example_resumed_readers * unat (buf_size (example_stream 18)) < 2 ^ 64"
  "example_resumed_readers \<noteq> []"
  "unat (21 :: 64 word) = 12 + 9 * 1"
  "1 \<le> unat (num_edges (example_stream 18))"
  "list_all exhausted example_resumed_readers"
  "updates_of example_log = map (\<lambda>e. (fst e, file_update example_file (snd e))) [(0, 0)]"
  "mset (map snd [(0 :: nat, 0 :: nat)]) = mset [0..<1]"
  "\<forall>e\<in>set [(0 :: nat, 0 :: nat)]. fst e < length example_resumed_readers"
  "\<forall>i. sorted_wrt (<) (map snd (filter (\<lambda>e. fst e = i) [(0 :: nat, 0 :: nat)]))"
  "register_query ((example_stream 18)\<lparr>stream_off := 21\<rparr>) 2
     = (True, (example_stream 18)\<lparr>stream_off := 21, query_index := 30\<rparr>)"
  "unat (2 :: 64 word) \<le> unat (num_edges (example_stream 18))"
  "post_query_resume example_paused_stream = (example_stream 18)\<lparr>stream_off := 21\<rparr>"
  by (simp_all add: length_example_file example_resumed_readers_def example_stream_def
        exhausted_def example_paused_reader_def MT_StreamReader_ctor_def example_log_def
        updates_of_def file_update_def example_records breakpoint_update_def INSERT_def
        BREAKPOINT_def register_query_def header_size_def edge_size_def
        example_paused_stream_def post_query_resume_def)

theorem exactly_once_delivery_witness:
  "\<exists>st. run example_file [0,1,0,1,0,0,1]
           (mt_start (example_stream 18) [MT_StreamReader_ctor [], MT_StreamReader_ctor []])
         = Some (Inr st)
       \<and> (0, breakpoint_update) \<in> set (delivered st)
       \<and> (1, breakpoint_update) \<in> set (delivered st)
       \<and> mset (map snd (updates_of (delivered st))) = mset (file_updates example_file)"
proof -
  have nw: "length example_file
              + length [MT_StreamReader_ctor [], MT_StreamReader_ctor []]
                * unat (buf_size (example_stream 18)) < 2 ^ 64"
    by (simp add: length_example_file example_stream_def)
  from exactly_once_delivery [OF example_ctor_18 example_hyps(1,2) nw example_hyps(3,4),
         of "[0,1,0,1,0,0,1]"]
  obtain st where st: "run example_file [0,1,0,1,0,0,1]
           (mt_start (example_stream 18) [MT_StreamReader_ctor [], MT_StreamReader_ctor []])
         = Some (Inr st)"
     "(\<forall>i<length [MT_StreamReader_ctor [], MT_StreamReader_ctor []].
          (i, breakpoint_update) \<in> set (delivered st)) \<longrightarrow>
        mset (map snd (updates_of (delivered st))) = mset (file_updates example_file)"
    by blast
  have d: "(0, breakpoint_update) \<in> set (delivered st)" "(1, breakpoint_update) \<in> set (delivered st)"
    using st(1) unfolding run_example_race by auto
  then have "\<forall>i<length [MT_StreamReader_ctor [], MT_StreamReader_ctor []].
               (i, breakpoint_update) \<in> set (delivered st)"
    by (auto simp: less_Suc_eq)
  with st d show ?thesis by blast
qed

text \<open>With a buffer size below nine the one reader is returned a breakpoint at its first
  call and no record of the file is ever delivered.\<close>

theorem zero_buffer_delivers_nothing_counterexample:
  "BinaryGraphStream_MT_ctor 3 example_file 8 = Inr (example_stream 0)
   \<and> run example_file [0,0] (mt_start (example_stream 0) [MT_StreamReader_ctor []])
       = Some (Inr \<lparr> delivered = [(0, breakpoint_update)], strm = example_stream 0,
                     rdrs = [MT_StreamReader_ctor []], fetching = {} \<rparr>)
   \<and> mset (map snd (updates_of [(0, breakpoint_update)])) \<noteq> mset (file_updates example_file)"
proof (intro conjI)
  show "BinaryGraphStream_MT_ctor 3 example_file 8 = Inr (example_stream 0)"
    by (rule example_ctor_8)
  show "run example_file [0,0] (mt_start (example_stream 0) [MT_StreamReader_ctor []])
       = Some (Inr \<lparr> delivered = [(0, breakpoint_update)], strm = example_stream 0,
                     rdrs = [MT_StreamReader_ctor []], fetching = {} \<rparr>)"
    by (rule run_example_zero_buffer)
  show "mset (map snd (updates_of [(0, breakpoint_update)])) \<noteq> mset (file_updates example_file)"
    by (simp add: file_updates_example updates_of_def)
qed

theorem registered_query_boundary_witness:
  "run example_file [0,0,1,0]
       (mt_start ((example_stream 18)\<lparr>query_index := 21\<rparr>)
          [MT_StreamReader_ctor [], MT_StreamReader_ctor []])
     = Some (Inr \<lparr> delivered = example_log, strm = example_paused_stream,
                   rdrs = example_resumed_readers, fetching = {} \<rparr>)
   \<and> post_query_resume example_paused_stream = (example_stream 18)\<lparr>stream_off := 21\<rparr>
   \<and> run example_file [0]
       \<lparr> delivered = example_log, strm = (example_stream 18)\<lparr>stream_off := 21\<rparr>,
         rdrs = example_resumed_readers, fetching = {} \<rparr>
     = Some (Inr \<lparr> delivered = example_log, strm = (example_stream 18)\<lparr>stream_off := 21\<rparr>,
                   rdrs = example_resumed_readers, fetching = {0} \<rparr>)
   \<and> register_query ((example_stream 18)\<lparr>stream_off := 21\<rparr>) 2
     = (True, (example_stream 18)\<lparr>stream_off := 21, query_index := 30\<rparr>)
   \<and> (\<exists>st. run example_file [1,0,1,0,1]
           \<lparr> delivered = example_log,
             strm = (example_stream 18)\<lparr>stream_off := 21, query_index := 30\<rparr>,
             rdrs = example_resumed_readers, fetching = {0} \<rparr>
         = Some (Inr st)
       \<and> (0, breakpoint_update) \<in> set (drop (length example_log) (delivered st))
       \<and> (1, breakpoint_update) \<in> set (drop (length example_log) (delivered st))
       \<and> unat (stream_off (strm st)) = 12 + 9 * unat (2 :: 64 word)
       \<and> length (updates_of (delivered st)) = unat (2 :: 64 word)
       \<and> list_all exhausted (rdrs st))"
proof -
  define st1 where "st1 = \<lparr> delivered = example_log, strm = (example_stream 18)\<lparr>stream_off := 21\<rparr>,
                   rdrs = example_resumed_readers, fetching = {0 :: nat} \<rparr>"
  have r1: "run example_file [0]
       \<lparr> delivered = example_log, strm = (example_stream 18)\<lparr>stream_off := 21\<rparr>,
         rdrs = example_resumed_readers, fetching = {} \<rparr> = Some (Inr st1)"
    unfolding st1_def by (rule run_example_resumed_check)
  have reg: "register_query (strm st1) 2
               = (True, (example_stream 18)\<lparr>stream_off := 21, query_index := 30\<rparr>)"
    using example_resumed_hyps(10) by (simp add: st1_def)
  have st1': "st1\<lparr>strm := (example_stream 18)\<lparr>stream_off := 21, query_index := 30\<rparr>\<rparr>
               = \<lparr> delivered = example_log,
                   strm = (example_stream 18)\<lparr>stream_off := 21, query_index := 30\<rparr>,
                   rdrs = example_resumed_readers, fetching = {0} \<rparr>"
    by (simp add: st1_def)
  have dl: "delivered st1 = example_log" by (simp add: st1_def)
  from registered_query_boundary [OF example_ctor_18 example_hyps(1,2) example_resumed_hyps(1)
         example_hyps(3) example_resumed_hyps(2,3,4,5,6,7,8,9) r1 reg example_resumed_hyps(11),
         of "[1,0,1,0,1]"]
  obtain st where st: "run example_file [1,0,1,0,1]
           \<lparr> delivered = example_log,
             strm = (example_stream 18)\<lparr>stream_off := 21, query_index := 30\<rparr>,
             rdrs = example_resumed_readers, fetching = {0} \<rparr>
         = Some (Inr st)"
     "(\<forall>i<length example_resumed_readers.
          (i, breakpoint_update) \<in> set (drop (length example_log) (delivered st))) \<longrightarrow>
        unat (stream_off (strm st)) = 12 + 9 * unat (2 :: 64 word)
        \<and> length (updates_of (delivered st)) = unat (2 :: 64 word)
        \<and> list_all exhausted (rdrs st)"
    unfolding st1' dl by blast
  have d: "(0, breakpoint_update) \<in> set (drop (length example_log) (delivered st))"
          "(1, breakpoint_update) \<in> set (drop (length example_log) (delivered st))"
    using st(1) unfolding run_example_second_query by auto
  then have "\<forall>i<length example_resumed_readers.
               (i, breakpoint_update) \<in> set (drop (length example_log) (delivered st))"
    by (auto simp: less_Suc_eq example_resumed_readers_def)
  with st d run_example_first_query run_example_resumed_check example_resumed_hyps(10,12)
  show ?thesis by blast
qed

text \<open>A query registered at index 5 on the file of 3 records is accepted; the reader is
  stopped by the end of the file after 3 updates, not 5. With a query registered at index 2
  and two readers, reader 0 fetches both records and is returned the first; reader 1 is then
  returned a breakpoint although the record at position 1 has not been returned by any call.
  While an on-demand pause is in force the query at index 2 is accepted and the reader
  is returned a breakpoint at once, with no update delivered. When a reader fetches
  between the test and the store of \<open>register_query(1)\<close>, the call succeeds and the reader
  is then returned the record at position 1. And with a buffer size below nine the query
  at index 2 is accepted and the reader is returned a breakpoint with no update
  delivered, \<open>stream_off\<close> still at the header.\<close>

theorem registered_query_boundary_counterexample:
  "register_query (example_stream 18) 5 = (True, (example_stream 18)\<lparr>query_index := 57\<rparr>)
   \<and> run example_file [0,0,0,0,0,0]
       (mt_start ((example_stream 18)\<lparr>query_index := 57\<rparr>) [MT_StreamReader_ctor []])
     = Some (Inr \<lparr> delivered =
          [(0, \<lparr>edge = (0, 1), type = INSERT\<rparr>), (0, \<lparr>edge = (1, 2), type = INSERT\<rparr>),
           (0, \<lparr>edge = (0, 2), type = INSERT\<rparr>), (0, breakpoint_update)],
          strm = (example_stream 18)\<lparr>query_index := 57, stream_off := 48\<rparr>,
          rdrs = [\<lparr>start_buf = drop 30 example_file @ drop 9 (take 18 (drop 12 example_file)),
                    buf = 9, data_in_buf = 0\<rparr>],
          fetching = {} \<rparr>)
   \<and> length (updates_of
        [(0, \<lparr>edge = (0, 1), type = INSERT\<rparr>), (0, \<lparr>edge = (1, 2), type = INSERT\<rparr>),
         (0, \<lparr>edge = (0, 2), type = INSERT\<rparr>), (0, breakpoint_update)]) \<noteq> unat (5 :: 64 word)
   \<and> register_query (example_stream 18) 2 = (True, (example_stream 18)\<lparr>query_index := 30\<rparr>)
   \<and> run example_file [0,0,1]
       (mt_start ((example_stream 18)\<lparr>query_index := 30\<rparr>)
          [MT_StreamReader_ctor [], MT_StreamReader_ctor []])
     = Some (Inr \<lparr> delivered = [(0, \<lparr>edge = (0, 1), type = INSERT\<rparr>), (1, breakpoint_update)],
                   strm = (example_stream 18)\<lparr>query_index := 30, stream_off := 30\<rparr>,
                   rdrs = [example_reader 9, MT_StreamReader_ctor []], fetching = {} \<rparr>)
   \<and> file_update example_file 1 = \<lparr>edge = (1, 2), type = INSERT\<rparr>
   \<and> \<lparr>edge = (1, 2), type = INSERT\<rparr>
        \<notin> snd ` set [(0 :: nat, \<lparr>edge = (0, 1), type = INSERT\<rparr>), (1, breakpoint_update)]
   \<and> register_query (on_demand_query (example_stream 18)) 2
       = (True, (on_demand_query (example_stream 18))\<lparr>query_index := 30\<rparr>)
   \<and> run example_file [0]
       (mt_start ((on_demand_query (example_stream 18))\<lparr>query_index := 30\<rparr>)
          [MT_StreamReader_ctor []])
     = Some (Inr \<lparr> delivered = [(0, breakpoint_update)],
                   strm = (on_demand_query (example_stream 18))\<lparr>query_index := 30\<rparr>,
                   rdrs = [MT_StreamReader_ctor []], fetching = {} \<rparr>)
   \<and> length (updates_of [(0 :: nat, breakpoint_update)]) \<noteq> unat (2 :: 64 word)
   \<and> register_query_admits (example_stream 18) 1
   \<and> get_edge example_file [] (example_stream 18) (MT_StreamReader_ctor [])
     = Some (Inr \<lparr>edge = (0, 1), type = INSERT\<rparr>, (example_stream 18)\<lparr>stream_off := 30\<rparr>,
             example_reader 9)
   \<and> register_query_store ((example_stream 18)\<lparr>stream_off := 30\<rparr>) 1
     = (example_stream 18)\<lparr>stream_off := 30, query_index := 21\<rparr>
   \<and> get_edge example_file [] ((example_stream 18)\<lparr>stream_off := 30, query_index := 21\<rparr>)
       (example_reader 9)
     = Some (Inr \<lparr>edge = (1, 2), type = INSERT\<rparr>,
             (example_stream 18)\<lparr>stream_off := 30, query_index := 21\<rparr>, example_reader 18)
   \<and> BinaryGraphStream_MT_ctor 3 example_file 8 = Inr (example_stream 0)
   \<and> register_query (example_stream 0) 2 = (True, (example_stream 0)\<lparr>query_index := 30\<rparr>)
   \<and> run example_file [0,0]
       (mt_start ((example_stream 0)\<lparr>query_index := 30\<rparr>) [MT_StreamReader_ctor []])
     = Some (Inr \<lparr> delivered = [(0, breakpoint_update)],
                   strm = (example_stream 0)\<lparr>query_index := 30\<rparr>,
                   rdrs = [MT_StreamReader_ctor []], fetching = {} \<rparr>)"
  apply (intro conjI)
  subgoal by (rule register_example)
  subgoal by (rule run_example_late_query)
  subgoal by (simp add: updates_of_def breakpoint_update_def INSERT_def BREAKPOINT_def)
  subgoal by (rule register_example)
  subgoal by (rule run_example_early_breakpoint)
  subgoal by (simp add: file_update_def example_records)
  subgoal by (simp add: breakpoint_update_def INSERT_def BREAKPOINT_def)
  subgoal by (simp add: register_query_def example_stream_def header_size_def edge_size_def
        on_demand_query_def)
  subgoal by (rule run_example_pause)
  subgoal by (simp add: updates_of_def)
  subgoal by (simp add: register_query_admits_def example_stream_def header_size_def edge_size_def)
  subgoal by (simp add: mt_eval)
  subgoal by (simp add: register_query_store_def example_stream_def header_size_def edge_size_def)
  subgoal by (simp add: mt_eval)
  subgoal by (rule example_ctor_8)
  subgoal by (simp add: register_query_def example_stream_def header_size_def edge_size_def)
  subgoal by (rule run_example_query_zero_buffer)
  done

section \<open>Properties of the graph engine\<close>

lemma ranked_halve:
  assumes "ranked f p" "p x \<noteq> x"
  shows "ranked f (p(x := p (p x)))" "f (p (p x)) < f x"
proof -
  have a: "f (p x) < f x" using assms by (simp add: ranked_def)
  have b: "f (p (p x)) \<le> f (p x)"
    using assms(1) by (cases "p (p x) = p x") (auto simp: ranked_def less_imp_le)
  show "f (p (p x)) < f x" using a b by simp
  then show "ranked f (p(x := p (p x)))"
    using assms(1) by (auto simp: ranked_def)
qed

lemma get_parent_root:
  "ranked f p \<Longrightarrow>
     \<exists>r p'. get_parent p x = Some (r, p') \<and> p' r = r \<and> ranked f p'
            \<and> (\<forall>y. p y = y \<longrightarrow> p' y = y)"
proof (induction "f x" arbitrary: p x rule: less_induct)
  case less
  show ?case
  proof (cases "p x = x")
    case True
    then show ?thesis using less.prems by (subst get_parent.simps) simp
  next
    case False
    let ?p = "p(x := p (p x))"
    from ranked_halve [OF less.prems False]
    have r: "ranked f ?p" and lt: "f (p (p x)) < f x" .
    from less.hyps [OF lt r] obtain r' p' where
      g: "get_parent ?p (p (p x)) = Some (r', p')" "p' r' = r'" "ranked f p'"
         "\<forall>y. ?p y = y \<longrightarrow> p' y = y"
      by blast
    have "get_parent p x = Some (r', p')"
      using False g(1) by (subst get_parent.simps) simp
    moreover have "\<forall>y. p y = y \<longrightarrow> p' y = y"
    proof (intro allI impI)
      fix y assume y: "p y = y"
      then have "y \<noteq> x" using False by auto
      then have "?p y = y" using y by simp
      then show "p' y = y" using g(4) by blast
    qed
    ultimately show ?thesis using g(2,3) by blast
  qed
qed

lemma get_parent_at_root: "p x = x \<Longrightarrow> get_parent p x = Some (x, p)"
  by (subst get_parent.simps) simp

text \<open>From two distinct roots, the first of them not the smaller, the loop links the
  second below the first, however many exchanges fail spuriously before.\<close>

lemma union_loop_roots:
  assumes "parent g a = a" "parent g b = b" "a \<noteq> b" "\<not> dsu_size g a < dsu_size g b"
  shows "union_loop cas src dst g a b =
           Some (g\<lparr>parent := (parent g)(b := a),
                   dsu_size := (dsu_size g)(a := dsu_size g a + dsu_size g b),
                   spanning_forest :=
                     (spanning_forest g)(src := insert dst (spanning_forest g src))\<rparr>)"
  using assms
proof (induction cas)
  case Nil
  then show ?case
    by (subst union_loop.simps) (simp add: get_parent_at_root)
next
  case (Cons c cas)
  show ?case
  proof (cases c)
    case True
    have "union_loop (c # cas) src dst g a b = union_loop cas src dst (g\<lparr>parent := parent g\<rparr>) a b"
      using Cons.prems True
      by (subst union_loop.simps) (simp add: get_parent_at_root)
    then show ?thesis using Cons.IH [OF Cons.prems] by simp
  next
    case False
    then show ?thesis using Cons.prems
      by (subst union_loop.simps) (simp add: get_parent_at_root)
  qed
qed

lemma union_loop_result:
  assumes "ranked f (parent g)"
  shows "\<exists>a p1 b p2. get_parent (parent g) x = Some (a, p1) \<and> get_parent p1 y = Some (b, p2)
           \<and> p2 a = a \<and> p2 b = b \<and> ranked f p2
           \<and> union_loop cas src dst g x y = Some (union_result g p2 src dst a b)
           \<and> (a \<noteq> b \<and> cas \<noteq> [] \<and> hd cas \<longrightarrow>
                union_loop cas src dst g x y =
                  union_loop (tl cas) src dst (g\<lparr>parent := p2\<rparr>)
                    (if dsu_size g a < dsu_size g b then b else a)
                    (if dsu_size g a < dsu_size g b then a else b))"
proof -
  from get_parent_root [OF assms, of x] obtain a p1 where
    A: "get_parent (parent g) x = Some (a, p1)" "p1 a = a" "ranked f p1" by blast
  from get_parent_root [OF A(3), of y] obtain b p2 where
    B: "get_parent p1 y = Some (b, p2)" "p2 b = b" "ranked f p2" "\<forall>z. p1 z = z \<longrightarrow> p2 z = z"
    by blast
  have a2: "p2 a = a" using A(2) B(4) by simp
  let ?big = "if dsu_size g a < dsu_size g b then b else a"
  let ?small = "if dsu_size g a < dsu_size g b then a else b"
  let ?g = "g\<lparr>parent := p2\<rparr>"
  have retry: "union_loop cas src dst g x y = union_loop (tl cas) src dst ?g ?big ?small"
    if "a \<noteq> b" "cas \<noteq> [] \<and> hd cas"
    using A(1) B(1) that a2 B(2)
    by (subst union_loop.simps) (simp add: Let_def)
  have "union_loop cas src dst g x y = Some (union_result g p2 src dst a b)"
  proof (cases "a = b")
    case True
    then show ?thesis
      using A(1) B(1) by (subst union_loop.simps) (simp add: union_result_def)
  next
    case False
    have roots: "parent ?g ?big = ?big" "parent ?g ?small = ?small" "?big \<noteq> ?small"
         "\<not> dsu_size ?g ?big < dsu_size ?g ?small"
      using a2 B(2) False by auto
    have small: "p2 ?small = ?small" using a2 B(2) by simp
    show ?thesis
    proof (cases "cas \<noteq> [] \<and> hd cas")
      case True
      have "union_loop cas src dst g x y = union_loop (tl cas) src dst ?g ?big ?small"
        using A(1) B(1) False True small
        by (subst union_loop.simps) (simp add: Let_def)
      also have "\<dots> = Some (union_result g p2 src dst a b)"
        using False by (simp add: union_loop_roots [OF roots] union_result_def Let_def)
      finally show ?thesis .
    next
      case c: False
      show ?thesis
        using A(1) B(1) False c small
        by (subst union_loop.simps) (auto simp: union_result_def Let_def)
    qed
  qed
  then show ?thesis using A(1) B(1,2,3) a2 retry by blast
qed

lemma union_result_frame:
  "gts (union_result g p2 src dst a b) = gts g"
  "dsu_valid (union_result g p2 src dst a b) = dsu_valid g"
  "update_locked (union_result g p2 src dst a b) = update_locked g"
  by (simp_all add: union_result_def Let_def)

lemma dsu_step_total:
  assumes "ranked f (parent g)"
  shows "\<exists>g'. dsu_step eager cas g e = Some g' \<and> gts g' = gts g
           \<and> update_locked g' = update_locked g
           \<and> dsu_valid g' =
               (eager \<and> dsu_valid g \<and> max (fst e) (snd e) \<notin> spanning_forest g (min (fst e) (snd e)))"
proof (cases "eager \<and> dsu_valid g \<and> max (fst e) (snd e) \<notin> spanning_forest g (min (fst e) (snd e))")
  case True
  from union_loop_result [OF assms, of "min (fst e) (snd e)" "max (fst e) (snd e)" cas
        "min (fst e) (snd e)" "max (fst e) (snd e)"]
  obtain a b p2 where
    "union_loop cas (min (fst e) (snd e)) (max (fst e) (snd e)) g (min (fst e) (snd e))
        (max (fst e) (snd e))
      = Some (union_result g p2 (min (fst e) (snd e)) (max (fst e) (snd e)) a b)"
    by blast
  then show ?thesis using True by (simp add: dsu_step_def Let_def union_result_frame)
next
  case False
  then show ?thesis by (auto simp: dsu_step_def Let_def)
qed

text \<open>C7. \<open>Graph::update\<close> raises \<open>UpdateLocked\<close> if and only if \<open>update_locked\<close> is
  set, and then the graph is as it was before the call: nothing is inserted into the
  gutter and the DSU and the spanning forest are untouched. Otherwise the call returns
  without an exception and the gutter has received \<open>(u, v)\<close> and then \<open>(v, u)\<close>, both
  for the calling thread. (The parent array is without cycles, so that the finds of the
  eager mode end.)\<close>
theorem update_locked_or_gutter:
  assumes "ranked f (parent g)"
  shows "(update_locked g \<longrightarrow> update eager cas g upd thr_id = Some (Some UpdateLocked, g))
       \<and> (\<not> update_locked g \<longrightarrow>
            (\<exists>g'. update eager cas g upd thr_id = Some (None, g')
               \<and> gts g' = gts g @ [((fst (edge upd), snd (edge upd)), thr_id),
                                     ((snd (edge upd), fst (edge upd)), thr_id)]))"
proof (intro conjI impI)
  assume "update_locked g"
  then show "update eager cas g upd thr_id = Some (Some UpdateLocked, g)"
    by (simp add: update_def)
next
  assume u: "\<not> update_locked g"
  let ?g2 = "g\<lparr>gts := gts_insert (gts_insert (gts g) (fst (edge upd), snd (edge upd)) thr_id)
                        (snd (edge upd), fst (edge upd)) thr_id\<rparr>"
  have "ranked f (parent ?g2)" using assms by simp
  from dsu_step_total [OF this, of eager cas "(snd (edge upd), fst (edge upd))"]
  obtain g' where "dsu_step eager cas ?g2 (snd (edge upd), fst (edge upd)) = Some g'"
    "gts g' = gts ?g2" by blast
  then show "\<exists>g'. update eager cas g upd thr_id = Some (None, g')
               \<and> gts g' = gts g @ [((fst (edge upd), snd (edge upd)), thr_id),
                                     ((snd (edge upd), fst (edge upd)), thr_id)]"
    using u by (simp add: update_def Let_def gts_insert_def)
qed

text \<open>C6, as amended. \<open>update\<close> does not look at the kind of the update. Without eager
  DSU every update, a deletion as well as an insertion, leaves \<open>dsu_valid\<close> false. With
  eager DSU an update leaves \<open>dsu_valid\<close> true exactly when it was true before and
  \<open>max(u,v)\<close> is not in \<open>spanning_forest[min(u,v)]\<close>: the deletion of an edge of the
  recorded forest invalidates the DSU, the deletion of any other edge leaves it as it
  was.\<close>
theorem update_dsu_valid:
  assumes "ranked f (parent g)" "\<not> update_locked g"
  shows "\<exists>g'. update eager cas g upd thr_id = Some (None, g')
           \<and> dsu_valid g' =
               (eager \<and> dsu_valid g
                \<and> max (fst (edge upd)) (snd (edge upd))
                     \<notin> spanning_forest g (min (fst (edge upd)) (snd (edge upd))))"
proof -
  let ?g2 = "g\<lparr>gts := gts_insert (gts_insert (gts g) (fst (edge upd), snd (edge upd)) thr_id)
                        (snd (edge upd), fst (edge upd)) thr_id\<rparr>"
  have "ranked f (parent ?g2)" using assms by simp
  from dsu_step_total [OF this, of eager cas "(snd (edge upd), fst (edge upd))"]
  show ?thesis
    using assms(2) by (auto simp: update_def Let_def max.commute min.commute)
qed


text \<open>The example graph is what the insertion of (0,1) makes of the new graph.\<close>

lemma example_graph_update:
  "update True [] new_graph \<lparr>edge = (0, 1), type = INSERT\<rparr> 0 = Some (None, example_graph)"
  by (simp add: update_def dsu_step_def new_graph_def example_graph_def gts_insert_def Let_def
        union_loop.simps get_parent.simps)

lemma ranked_example: "ranked example_rank (parent example_graph)"
  by (simp add: ranked_def example_rank_def example_graph_def)




theorem update_locked_or_gutter_witness:
  "update True [] (example_graph\<lparr>update_locked := True\<rparr>) \<lparr>edge = (1, 2), type = INSERT\<rparr> 7
     = Some (Some UpdateLocked, example_graph\<lparr>update_locked := True\<rparr>)
   \<and> (\<exists>g'. update True [] example_graph \<lparr>edge = (1, 2), type = INSERT\<rparr> 7 = Some (None, g')
          \<and> gts g' = [((0, 1), 0), ((1, 0), 0), ((1, 2), 7), ((2, 1), 7)])"
  using update_locked_or_gutter [of example_rank "example_graph\<lparr>update_locked := True\<rparr>"
          True "[]" "\<lparr>edge = (1, 2), type = INSERT\<rparr>" 7]
        update_locked_or_gutter [OF ranked_example, of True "[]" "\<lparr>edge = (1, 2), type = INSERT\<rparr>" 7]
        ranked_example
  by (simp add: example_graph_def)

theorem update_dsu_valid_witness:
  "(\<exists>g'. update True [] example_graph \<lparr>edge = (1, 2), type = DELETE\<rparr> 0 = Some (None, g')
       \<and> dsu_valid g')
   \<and> (\<exists>g'. update True [] example_graph \<lparr>edge = (1, 0), type = DELETE\<rparr> 0 = Some (None, g')
       \<and> \<not> dsu_valid g')
   \<and> (\<exists>g'. update False [] example_graph \<lparr>edge = (1, 2), type = DELETE\<rparr> 0 = Some (None, g')
       \<and> \<not> dsu_valid g')"
  using update_dsu_valid [OF ranked_example, of True "[]" "\<lparr>edge = (1, 2), type = DELETE\<rparr>" 0]
        update_dsu_valid [OF ranked_example, of True "[]" "\<lparr>edge = (1, 0), type = DELETE\<rparr>" 0]
        update_dsu_valid [OF ranked_example, of False "[]" "\<lparr>edge = (1, 2), type = DELETE\<rparr>" 0]
  by (simp add: example_graph_def)

text \<open>In eager mode, after the insertions (0,1), (1,2) and (0,2), the deletion of (0,2), an
  edge outside the recorded forest, returns without an exception and \<open>dsu_valid\<close> is
  still true.\<close>

theorem delete_keeps_dsu_valid_counterexample:
  "map_option fst (updates True new_graph
          [\<lparr>edge = (0, 1), type = INSERT\<rparr>, \<lparr>edge = (1, 2), type = INSERT\<rparr>,
           \<lparr>edge = (0, 2), type = INSERT\<rparr>, \<lparr>edge = (0, 2), type = DELETE\<rparr>]) = Some None
   \<and> map_option (dsu_valid \<circ> snd) (updates True new_graph
          [\<lparr>edge = (0, 1), type = INSERT\<rparr>, \<lparr>edge = (1, 2), type = INSERT\<rparr>,
           \<lparr>edge = (0, 2), type = INSERT\<rparr>, \<lparr>edge = (0, 2), type = DELETE\<rparr>]) = Some True"
  by (simp add: update_def dsu_step_def new_graph_def gts_insert_def Let_def
        union_loop.simps get_parent.simps)

subsection \<open>The parent array stays without cycles\<close>

text \<open>A union links one root below another, so a rank exists again afterwards.\<close>

lemma union_result_ranked:
  assumes r: "ranked f p2" and a: "p2 a = a" and b: "p2 b = b"
  shows "\<exists>f'. ranked f' (parent (union_result g p2 src dst a b))"
proof (cases "a = b")
  case True
  then show ?thesis using r by (auto simp: union_result_def)
next
  case False
  define big where "big = (if dsu_size g a < dsu_size g b then b else a)"
  define small where "small = (if dsu_size g a < dsu_size g b then a else b)"
  have rt: "p2 big = big" "p2 small = small" "big \<noteq> small"
    using a b False by (auto simp: big_def small_def)
  have p: "parent (union_result g p2 src dst a b) = p2(small := big)"
    using False by (simp add: union_result_def Let_def big_def small_def)
  have "ranked (\<lambda>x. if x = big then 0 else Suc (f x)) (p2(small := big))"
    unfolding ranked_def
  proof (intro allI impI)
    fix y assume y: "(p2(small := big)) y \<noteq> y"
    show "(if (p2(small := big)) y = big then 0 else Suc (f ((p2(small := big)) y)))
            < (if y = big then 0 else Suc (f y))"
    proof (cases "y = small")
      case True
      then show ?thesis using rt by simp
    next
      case ns: False
      then have py: "p2 y \<noteq> y" using y by simp
      then have "y \<noteq> big" using rt(1) by auto
      moreover have "f (p2 y) < f y" using r py by (simp add: ranked_def)
      ultimately show ?thesis using ns by simp
    qed
  qed
  then show ?thesis unfolding p by blast
qed

lemma dsu_step_ranked:
  assumes "ranked f (parent g)" "dsu_step eager cas g e = Some g'"
  shows "\<exists>f'. ranked f' (parent g')"
proof (cases "eager \<and> dsu_valid g \<and> max (fst e) (snd e) \<notin> spanning_forest g (min (fst e) (snd e))")
  case True
  from union_loop_result [OF assms(1), of "min (fst e) (snd e)" "max (fst e) (snd e)" cas
        "min (fst e) (snd e)" "max (fst e) (snd e)"]
  obtain a b p2 where u: "p2 a = a" "p2 b = b" "ranked f p2"
    "union_loop cas (min (fst e) (snd e)) (max (fst e) (snd e)) g (min (fst e) (snd e))
        (max (fst e) (snd e))
      = Some (union_result g p2 (min (fst e) (snd e)) (max (fst e) (snd e)) a b)"
    by blast
  have "g' = union_result g p2 (min (fst e) (snd e)) (max (fst e) (snd e)) a b"
    using assms(2) True u(4) by (simp add: dsu_step_def Let_def)
  then show ?thesis using union_result_ranked [OF u(3,1,2)] by simp
next
  case False
  then have "parent g' = parent g"
    using assms(2) by (auto simp: dsu_step_def Let_def split: if_splits)
  then show ?thesis using assms(1) by auto
qed

lemma update_ranked:
  assumes "ranked f (parent g)"
  shows "\<exists>res g' f'. update eager cas g upd thr_id = Some (res, g') \<and> ranked f' (parent g')"
proof (cases "update_locked g")
  case True
  then show ?thesis using assms by (auto simp: update_def)
next
  case False
  let ?g2 = "g\<lparr>gts := gts_insert (gts_insert (gts g) (fst (edge upd), snd (edge upd)) thr_id)
                        (snd (edge upd), fst (edge upd)) thr_id\<rparr>"
  have r2: "ranked f (parent ?g2)" using assms by simp
  from dsu_step_total [OF r2, of eager cas "(snd (edge upd), fst (edge upd))"]
  obtain g' where g': "dsu_step eager cas ?g2 (snd (edge upd), fst (edge upd)) = Some g'"
    by blast
  from dsu_step_ranked [OF r2 g'] obtain f' where "ranked f' (parent g')" by blast
  then show ?thesis using False g' by (auto simp: update_def Let_def)
qed

text \<open>Every sequence of updates on a new graph returns.\<close>

lemma updates_total:
  "ranked f (parent g) \<Longrightarrow>
     \<exists>res g' f'. updates eager g us = Some (res, g') \<and> ranked f' (parent g')"
proof (induction us arbitrary: f g)
  case Nil
  then show ?case by auto
next
  case (Cons u us)
  from update_ranked [OF Cons.prems, of eager "[]" u 0]
  obtain res g1 f1 where u1: "update eager [] g u 0 = Some (res, g1)" "ranked f1 (parent g1)"
    by blast
  show ?case
  proof (cases res)
    case None
    then show ?thesis using u1 Cons.IH [OF u1(2)] by simp
  next
    case (Some e)
    then show ?thesis using u1 by auto
  qed
qed

end
